theory Spec2Isabelle
  imports Complex_Main "HOL-Library.Word" "HOL-Library.Log_Nat"
begin

section \<open>JavaScript strings\<close>

text \<open>
  A JavaScript string is a sequence of 16-bit code units, \<open>length\<close> is its \<^verbatim>\<open>.length\<close>, and
  \<open>lit\<close> gives the code units of an ASCII literal of the source.
\<close>

type_synonym code_unit = "16 word"

type_synonym js_string = "code_unit list"

definition lit :: "string \<Rightarrow> js_string" where
  "lit s = map of_char s"

text \<open>The case folding of a regular expression with the \<^verbatim>\<open>i\<close> flag (and no \<^verbatim>\<open>u\<close> flag)
  against an ASCII pattern: a code unit from 128 on never folds onto an ASCII one, so only
  the letters \<^verbatim>\<open>A\<close> to \<^verbatim>\<open>Z\<close> meet the pattern's letters.\<close>

definition ascii_lower :: "code_unit \<Rightarrow> code_unit" where
  "ascii_lower u = (if 0x41 \<le> u \<and> u \<le> 0x5A then u + 0x20 else u)"

text \<open>\<^verbatim>\<open>String.prototype.toLowerCase\<close> is a built-in that follows the case tables of
  Unicode, which are not part of the repository: the functions that call it take it as
  the parameter \<open>toLowerCase\<close>, and what is proved of them holds of every conversion.
  For concrete inputs, \<open>lower_basic\<close> writes the conversion out on the ASCII and Latin-1
  capitals, on U+0130 (which becomes the two code units U+0069 U+0307) and on the Kelvin
  and Angstrom signs U+212A and U+212B; it keeps every other code unit, so it is the
  built-in on the texts made of ASCII, Latin-1 and these code units only.\<close>

type_synonym case_conversion = "js_string \<Rightarrow> js_string"

definition lower_unit :: "code_unit \<Rightarrow> js_string" where
  "lower_unit u =
     (if (0x41 \<le> u \<and> u \<le> 0x5A) \<or> (0xC0 \<le> u \<and> u \<le> 0xDE \<and> u \<noteq> 0xD7) then [u + 0x20]
      else if u = 0x130 then [0x69, 0x307]
      else if u = 0x212A then [0x6B]
      else if u = 0x212B then [0xE5]
      else [u])"

definition lower_basic :: case_conversion where
  "lower_basic s = concat (map lower_unit s)"

text \<open>The class \<^verbatim>\<open>\s\<close> (white space and line terminators), which is also what
  \<^verbatim>\<open>trim\<close> removes; the dot of a regular expression stops at a line terminator.\<close>

definition is_space :: "code_unit \<Rightarrow> bool" where
  "is_space u =
     (u = 0x09 \<or> u = 0x0A \<or> u = 0x0B \<or> u = 0x0C \<or> u = 0x0D \<or> u = 0x20 \<or> u = 0xA0 \<or>
      u = 0x1680 \<or> (0x2000 \<le> u \<and> u \<le> 0x200A) \<or> u = 0x2028 \<or> u = 0x2029 \<or>
      u = 0x202F \<or> u = 0x205F \<or> u = 0x3000 \<or> u = 0xFEFF)"

definition is_line_terminator :: "code_unit \<Rightarrow> bool" where
  "is_line_terminator u = (u = 0x0A \<or> u = 0x0D \<or> u = 0x2028 \<or> u = 0x2029)"

definition not_line_terminator :: "code_unit \<Rightarrow> bool" where
  "not_line_terminator u = (\<not> is_line_terminator u)"

definition trim :: "js_string \<Rightarrow> js_string" where
  "trim s = rev (dropWhile is_space (rev (dropWhile is_space s)))"

definition startsWith :: "js_string \<Rightarrow> js_string \<Rightarrow> bool" where
  "startsWith s p = (take (length p) s = p)"

text \<open>The first occurrence of \<open>pat\<close> in a string: the text before it and the text after it.\<close>

fun find_str :: "js_string \<Rightarrow> js_string \<Rightarrow> (js_string \<times> js_string) option" where
  "find_str pat [] = (if pat = [] then Some ([], []) else None)"
| "find_str pat (c # s) =
     (if startsWith (c # s) pat then Some ([], drop (length pat) (c # s))
      else (case find_str pat s of None \<Rightarrow> None | Some (b, a) \<Rightarrow> Some (c # b, a)))"

definition str_includes :: "js_string \<Rightarrow> js_string \<Rightarrow> bool" where
  "str_includes s t = (case find_str t s of None \<Rightarrow> False | Some r \<Rightarrow> True)"

lemma find_str_decomp: "find_str pat s = Some (b, a) \<Longrightarrow> s = b @ pat @ a"
proof (induction s arbitrary: b)
  case Nil
  then show ?case by (simp split: if_splits)
next
  case (Cons c s)
  show ?case
  proof (cases "startsWith (c # s) pat")
    case True
    with Cons.prems have "b = []" and "a = drop (length pat) (c # s)" by simp_all
    moreover from True have "take (length pat) (c # s) = pat" by (simp add: startsWith_def)
    ultimately show ?thesis by (metis append_Nil append_take_drop_id)
  next
    case False
    with Cons.prems obtain b' where "find_str pat s = Some (b', a)" and "b = c # b'"
      by (auto split: option.splits)
    with Cons.IH show ?thesis by simp
  qed
qed

lemma find_str_shorter: "find_str pat s = Some (b, a) \<Longrightarrow> pat \<noteq> [] \<Longrightarrow> length a < length s"
  by (drule find_str_decomp) (cases pat, simp_all)

text \<open>\<^verbatim>\<open>s.split(sep)\<close> with a string separator.\<close>

function str_split :: "js_string \<Rightarrow> js_string \<Rightarrow> js_string list" where
  "str_split sep s =
     (if sep = [] then map (\<lambda>c. [c]) s
      else (case find_str sep s of
              None \<Rightarrow> [s]
            | Some (b, a) \<Rightarrow> b # str_split sep a))"
  by pat_completeness auto
termination
  by (relation "measure (\<lambda>(sep, s). length s)") (auto dest: find_str_shorter)

text \<open>\<^verbatim>\<open>s.replace(pat, rep)\<close> with a string pattern replaces the first occurrence;
  with a global regular expression of a non-empty literal it replaces every occurrence.\<close>

definition replace_first :: "js_string \<Rightarrow> js_string \<Rightarrow> js_string \<Rightarrow> js_string" where
  "replace_first pat rep s =
     (case find_str pat s of None \<Rightarrow> s | Some (b, a) \<Rightarrow> b @ rep @ a)"

function replace_all :: "js_string \<Rightarrow> js_string \<Rightarrow> js_string \<Rightarrow> js_string" where
  "replace_all pat rep s =
     (if pat = [] then s
      else (case find_str pat s of
              None \<Rightarrow> s
            | Some (b, a) \<Rightarrow> b @ rep @ replace_all pat rep a))"
  by pat_completeness auto
termination
  by (relation "measure (\<lambda>(pat, rep, s). length s)") (auto dest: find_str_shorter)

text \<open>\<^verbatim>\<open>s.match(re)\<close> with a global regular expression is \<^verbatim>\<open>null\<close> when nothing
  matches, and the list of matched texts otherwise.\<close>

definition match_g :: "js_string list \<Rightarrow> js_string list option" where
  "match_g ms = (if ms = [] then None else Some ms)"

text \<open>\<^verbatim>\<open>Array.from(new Set(xs))\<close>: a set keeps the order of first insertion.\<close>

definition set_add :: "'a list \<Rightarrow> 'a \<Rightarrow> 'a list" where
  "set_add acc x = (if x \<in> set acc then acc else acc @ [x])"

definition array_from_set :: "'a list \<Rightarrow> 'a list" where
  "array_from_set xs = foldl set_add [] xs"

section \<open>The regular expressions of content-analysis.ts\<close>

text \<open>
  Each pattern of the source is written out as the scan the regular-expression engine
  performs: leftmost match first, greedy and lazy quantifiers as written, and a global
  match resuming where the previous match ended. The literals of the patterns: three
  backticks, \<^verbatim>\<open>##\<close> and \<^verbatim>\<open>**\<close>.
\<close>

definition fence :: js_string where
  "fence = [0x60, 0x60, 0x60]"

definition heading_marker :: js_string where
  "heading_marker = [0x23, 0x23]"

definition bold_marker :: js_string where
  "bold_marker = [0x2A, 0x2A]"

text \<open>The matches of \<^verbatim>\<open>/```[\s\S]*?```/g\<close>: an opening fence and the nearest closing
  fence after it. The function returns how many there are.\<close>

function count_code_blocks :: "js_string \<Rightarrow> nat" where
  "count_code_blocks s =
     (case find_str fence s of
        None \<Rightarrow> 0
      | Some (b, r) \<Rightarrow>
          (case find_str fence r of
             None \<Rightarrow> 0
           | Some (inner, r') \<Rightarrow> Suc (count_code_blocks r')))"
  by pat_completeness auto
termination
proof (relation "measure length", goal_cases)
  case 1
  show ?case by simp
next
  case (2 s x b r y inner r')
  then have "length r < length s" and "length r' < length r"
    by (auto dest!: find_str_shorter simp: fence_def)
  then show ?case by simp
qed

text \<open>The text after the first case-insensitive occurrence of a lower-case ASCII pattern.\<close>

fun find_ci :: "js_string \<Rightarrow> js_string \<Rightarrow> js_string option" where
  "find_ci pat [] = (if pat = [] then Some [] else None)"
| "find_ci pat (c # s) =
     (if map ascii_lower (take (length pat) (c # s)) = pat
      then Some (drop (length pat) (c # s))
      else find_ci pat s)"

text \<open>An optional single character of a pattern (\<^verbatim>\<open>s?\<close>, \<^verbatim>\<open>:?\<close>): greedy, it is taken when
  the text has it next.\<close>

definition skip_optional :: "(code_unit \<Rightarrow> bool) \<Rightarrow> js_string \<Rightarrow> js_string" where
  "skip_optional P r = (case r of [] \<Rightarrow> r | c # t \<Rightarrow> if P c then t else r)"

text \<open>Capture group 1 of \<^verbatim>\<open>/prerequisites?:?([\s\S]*?)(?=##|$)/i\<close> (line 92): after the
  first occurrence of the word, an optional \<^verbatim>\<open>s\<close> (0x73, in either case) and an optional
  colon (0x3A) are taken when present, and the lazy group stops before the first \<^verbatim>\<open>##\<close>,
  or at the end of the text. The rest of the pattern matches wherever the word does, so
  the quantifiers never give back what they took.\<close>

definition prerequisiteSection :: "js_string \<Rightarrow> js_string option" where
  "prerequisiteSection content =
     (case find_ci (lit ''prerequisite'') content of
        None \<Rightarrow> None
      | Some r \<Rightarrow>
          (let r1 = skip_optional (\<lambda>c. ascii_lower c = 0x73) r;
               r2 = skip_optional (\<lambda>c. c = 0x3A) r1
           in Some (case find_str heading_marker r2 of None \<Rightarrow> r2 | Some (b, a) \<Rightarrow> b)))"

text \<open>The markers \<^verbatim>\<open>-\<close> (0x2D) and \<^verbatim>\<open>*\<close> (0x2A).\<close>

definition is_marker :: "code_unit \<Rightarrow> bool" where
  "is_marker c = (c = 0x2D \<or> c = 0x2A)"

definition not_marker :: "code_unit \<Rightarrow> bool" where
  "not_marker c = (\<not> is_marker c)"

text \<open>The matches of \<^verbatim>\<open>/[-*]\s*(.*)/g\<close>: the next marker character wherever it stands,
  all the white space after it (line breaks included), and the rest of that line.\<close>

function bullet_matches :: "js_string \<Rightarrow> js_string list" where
  "bullet_matches s =
     (case dropWhile not_marker s of
        [] \<Rightarrow> []
      | m # r \<Rightarrow>
          (m # takeWhile is_space r @ takeWhile not_line_terminator (dropWhile is_space r))
          # bullet_matches (dropWhile not_line_terminator (dropWhile is_space r)))"
  by pat_completeness auto
termination
proof (relation "measure length", goal_cases)
  case 1
  show ?case by simp
next
  case (2 s m r)
  have "length (dropWhile not_line_terminator (dropWhile is_space r)) \<le> length r"
    by (meson length_dropWhile_le le_trans)
  moreover have "length (m # r) \<le> length s"
    using 2 length_dropWhile_le [of not_marker s] by simp
  ultimately show ?case by simp
qed

text \<open>\<^verbatim>\<open>item.replace(/[-*]\s*/, '')\<close>: the first marker of the item and the white space
  after it are removed.\<close>

definition strip_marker :: "js_string \<Rightarrow> js_string" where
  "strip_marker s =
     (case dropWhile not_marker s of
        [] \<Rightarrow> s
      | m # r \<Rightarrow> takeWhile not_marker s @ dropWhile is_space r)"

text \<open>The matches of \<^verbatim>\<open>/##\s*(.*)/g\<close>.\<close>

function heading_matches :: "js_string \<Rightarrow> js_string list" where
  "heading_matches s =
     (case find_str heading_marker s of
        None \<Rightarrow> []
      | Some (b, r) \<Rightarrow>
          (heading_marker @ takeWhile is_space r
             @ takeWhile not_line_terminator (dropWhile is_space r))
          # heading_matches (dropWhile not_line_terminator (dropWhile is_space r)))"
  by pat_completeness auto
termination
proof (relation "measure length", goal_cases)
  case 1
  show ?case by simp
next
  case (2 s x b r)
  have "length (dropWhile not_line_terminator (dropWhile is_space r)) \<le> length r"
    by (meson length_dropWhile_le le_trans)
  moreover have "length r < length s"
    using 2 by (auto dest!: find_str_shorter simp: heading_marker_def)
  ultimately show ?case by simp
qed

text \<open>The lazy group of \<^verbatim>\<open>/\*\*(.*?)\*\*/\<close> after an opening \<^verbatim>\<open>**\<close>: the shortest run
  of characters of one line that a closing \<^verbatim>\<open>**\<close> follows, and the text after it.\<close>

fun bold_close :: "js_string \<Rightarrow> (js_string \<times> js_string) option" where
  "bold_close [] = None"
| "bold_close (c # s) =
     (if startsWith (c # s) bold_marker then Some ([], drop 2 (c # s))
      else if is_line_terminator c then None
      else (case bold_close s of None \<Rightarrow> None | Some (inner, r) \<Rightarrow> Some (c # inner, r)))"

lemma bold_close_shorter: "bold_close s = Some (inner, r) \<Longrightarrow> length r < length s"
  by (induction s arbitrary: inner) (auto split: if_splits option.splits)

text \<open>The matches of \<^verbatim>\<open>/\*\*(.*?)\*\*/g\<close>: where an opening \<^verbatim>\<open>**\<close> has no closing one on
  its line, the scan moves on by one character.\<close>

function bold_matches :: "js_string \<Rightarrow> js_string list" where
  "bold_matches [] = []"
| "bold_matches (c # s) =
     (if startsWith (c # s) bold_marker
      then (case bold_close (drop 2 (c # s)) of
              None \<Rightarrow> bold_matches s
            | Some (inner, r) \<Rightarrow> (bold_marker @ inner @ bold_marker) # bold_matches r)
      else bold_matches s)"
  by pat_completeness auto
termination
proof (relation "measure length", goal_cases)
  case 1
  show ?case by simp
next
  case (2 c s)
  show ?case by simp
next
  case (3 c s x inner r)
  then have "length r < length (drop 2 (c # s))"
    by (auto dest: bold_close_shorter)
  then show ?case by simp
next
  case (4 c s)
  show ?case by simp
qed

section \<open>Numbers\<close>

text \<open>
  A JavaScript number is an IEEE 754 binary64 value: a finite one is a rational number
  (the two zeros are one value here: they are equal under \<^verbatim>\<open>===\<close>), and there are two
  infinities and \<^verbatim>\<open>NaN\<close>. An operation computes the exact result and rounds it to the
  nearest binary64 value, a tie going to the even significand: \<open>binade q\<close> is the exponent
  of the power of two at or below \<open>\<bar>q\<bar>\<close>, a significand has 53 bits, the least exponent of
  the last bit is -1074, and a result that rounds to \<open>2\<^sup>1\<^sup>0\<^sup>2\<^sup>4\<close> or beyond is infinite.
\<close>

datatype js_number = Finite rat | PosInfinity | NegInfinity | NaN

definition binade :: "rat \<Rightarrow> int" where
  "binade q =
     (let (a, b) = quotient_of \<bar>q\<bar>;
          d = bitlen a - bitlen b
      in if 2 powi d \<le> \<bar>q\<bar> then d else d - 1)"

definition round_even :: "rat \<Rightarrow> int" where
  "round_even x =
     (let f = \<lfloor>x\<rfloor>;
          r = x - of_int f
      in if r < 1 / 2 then f
         else if 1 / 2 < r then f + 1
         else if even f then f else f + 1)"

definition to_double :: "rat \<Rightarrow> js_number" where
  "to_double q =
     (if q = 0 then Finite 0
      else (let e = max (binade q - 52) (- 1074);
                r = of_int (round_even (q / 2 powi e)) * 2 powi e
            in if 2 powi 1024 \<le> r then PosInfinity
               else if r \<le> - (2 powi 1024) then NegInfinity
               else Finite r))"

text \<open>\<^verbatim>\<open>x + y\<close>.\<close>

definition js_add :: "js_number \<Rightarrow> js_number \<Rightarrow> js_number" where
  "js_add x y =
     (case (x, y) of
        (Finite a, Finite b) \<Rightarrow> to_double (a + b)
      | (NaN, _) \<Rightarrow> NaN
      | (_, NaN) \<Rightarrow> NaN
      | (PosInfinity, NegInfinity) \<Rightarrow> NaN
      | (NegInfinity, PosInfinity) \<Rightarrow> NaN
      | (PosInfinity, _) \<Rightarrow> PosInfinity
      | (_, PosInfinity) \<Rightarrow> PosInfinity
      | (NegInfinity, _) \<Rightarrow> NegInfinity
      | (_, NegInfinity) \<Rightarrow> NegInfinity)"

text \<open>\<^verbatim>\<open>x / array.length\<close> for a non-empty array: the length is a positive integer below
  \<open>2\<^sup>3\<^sup>2\<close>, which is a binary64 value.\<close>

definition js_div_length :: "js_number \<Rightarrow> nat \<Rightarrow> js_number" where
  "js_div_length x n =
     (case x of
        Finite a \<Rightarrow> to_double (a / of_nat n)
      | PosInfinity \<Rightarrow> PosInfinity
      | NegInfinity \<Rightarrow> NegInfinity
      | NaN \<Rightarrow> NaN)"

text \<open>\<^verbatim>\<open>Math.round(x)\<close>: the integer nearest to \<open>x\<close>, a half going up; it is a binary64
  value whenever \<open>x\<close> is.\<close>

definition Math_round :: "js_number \<Rightarrow> js_number" where
  "Math_round x =
     (case x of
        Finite a \<Rightarrow> Finite (of_int \<lfloor>a + 1 / 2\<rfloor>)
      | PosInfinity \<Rightarrow> PosInfinity
      | NegInfinity \<Rightarrow> NegInfinity
      | NaN \<Rightarrow> NaN)"

section \<open>The records of types/index.ts\<close>

record DevToUser =
  name :: js_string
  username :: js_string
  summary :: js_string
  joined_at :: js_string

record DevToArticle =
  article_id :: int
  title :: js_string
  tags :: "js_string list"
  public_reactions_count :: js_number

text \<open>The \<^verbatim>\<open>parent_id\<close> of a comment record: the field may be missing from the object,
  hold \<^verbatim>\<open>null\<close>, or hold a number.\<close>

datatype parent_ref = Absent | Null | Parent int

text \<open>A comment is an object on the heap, and \<^verbatim>\<open>children\<close> holds references to comment
  objects: a reference is the position of the object in the heap.\<close>

record DevToComment =
  comment_id :: int
  parent_id :: parent_ref
  body_markdown :: js_string
  user :: DevToUser
  children :: "nat list"

datatype depth_tier = Beginner | Intermediate | Advanced

record FoundTerms =
  beginner :: "js_string list"
  intermediate :: "js_string list"
  advanced :: "js_string list"

record TechnicalContext =
  depth :: depth_tier
  codeBlockCount :: nat
  technicalTerms :: FoundTerms
  prerequisites :: "js_string list"

record ExpertContributions =
  count :: nat
  authors :: "js_string list"

datatype js_error = TypeError

section \<open>content-analysis.ts\<close>

text \<open>The file declares its functions twice (lines 1 to 238, and again from line 240); the
  two declarations of a function modelled here agree, but for \<^verbatim>\<open>analyzeDiscussion\<close>. The
  dictionaries of lines 4 to 8:\<close>

definition technicalTerms_dict :: FoundTerms where
  "technicalTerms_dict =
     \<lparr>beginner = [lit ''function'', lit ''variable'', lit ''loop'', lit ''if statement'',
                  lit ''array''],
      intermediate = [lit ''recursion'', lit ''middleware'', lit ''authentication'', lit ''API'',
                      lit ''database''],
      advanced = [lit ''distributed systems'', lit ''microservices'', lit ''kubernetes'',
                  lit ''machine learning'', lit ''blockchain'']\<rparr>"

text \<open>\<^verbatim>\<open>extractPrerequisites\<close> (lines 90 to 102).\<close>

definition extractPrerequisites :: "js_string \<Rightarrow> js_string list" where
  "extractPrerequisites content =
     (case prerequisiteSection content of
        None \<Rightarrow> []
      | Some captured \<Rightarrow>
          (case match_g (bullet_matches captured) of
             None \<Rightarrow> []
           | Some items \<Rightarrow> map (\<lambda>item. trim (strip_marker item)) items))"

text \<open>\<^verbatim>\<open>analyzeTechnicalDepth\<close> (lines 10 to 37): the terms of a dictionary found in the
  body, the tier decision of lines 21 to 26, and the result.\<close>

definition found_terms :: "case_conversion \<Rightarrow> js_string list \<Rightarrow> js_string \<Rightarrow> js_string list" where
  "found_terms toLowerCase dict content =
     filter (\<lambda>t. str_includes (toLowerCase content) (toLowerCase t)) dict"

definition decide_depth :: "FoundTerms \<Rightarrow> nat \<Rightarrow> depth_tier" where
  "decide_depth foundTerms n =
     (if length (advanced foundTerms) > 2 \<or> n > 5 then Advanced
      else if length (intermediate foundTerms) > 3 \<or> n > 2 then Intermediate
      else Beginner)"

definition analyzeTechnicalDepth :: "case_conversion \<Rightarrow> js_string \<Rightarrow> TechnicalContext" where
  "analyzeTechnicalDepth toLowerCase content =
     (let n = count_code_blocks content;
          foundTerms =
            \<lparr>beginner = found_terms toLowerCase (beginner technicalTerms_dict) content,
             intermediate = found_terms toLowerCase (intermediate technicalTerms_dict) content,
             advanced = found_terms toLowerCase (advanced technicalTerms_dict) content\<rparr>
      in \<lparr>depth = decide_depth foundTerms n,
          codeBlockCount = n,
          technicalTerms = foundTerms,
          prerequisites = extractPrerequisites content\<rparr>)"

text \<open>The order of the tiers: \<open>Beginner < Intermediate < Advanced\<close>.\<close>

definition tier_rank :: "depth_tier \<Rightarrow> nat" where
  "tier_rank d = (case d of Beginner \<Rightarrow> 0 | Intermediate \<Rightarrow> 1 | Advanced \<Rightarrow> 2)"

text \<open>\<^verbatim>\<open>hasIntroduction\<close> (lines 121 to 125). \<^verbatim>\<open>content.split('##')[0]\<close> reads the first
  piece; on an empty array the read would give \<^verbatim>\<open>undefined\<close>, and the call of
  \<^verbatim>\<open>toLowerCase\<close> on it a \<^verbatim>\<open>TypeError\<close>. The length that line 124 compares with 200 is
  that of the lower-cased piece.\<close>

definition hasIntroduction :: "case_conversion \<Rightarrow> js_string \<Rightarrow> js_error + bool" where
  "hasIntroduction toLowerCase content =
     (case str_split heading_marker content of
        [] \<Rightarrow> Inl TypeError
      | piece # rest \<Rightarrow>
          (let firstSection = toLowerCase piece
           in Inr (str_includes firstSection (lit ''introduction'') \<or> length firstSection > 200)))"

text \<open>\<^verbatim>\<open>hasConclusion\<close> (lines 127 to 132), with
  \<^verbatim>\<open>content.split('##').pop()?.toLowerCase() || ''\<close> for the last piece: the empty string
  where the array is empty or the lower-cased piece is empty.\<close>

definition hasConclusion :: "case_conversion \<Rightarrow> js_string \<Rightarrow> bool" where
  "hasConclusion toLowerCase content =
     (let pieces = str_split heading_marker content;
          lastSection =
            (if pieces = [] then []
             else if toLowerCase (last pieces) = [] then []
             else toLowerCase (last pieces))
      in str_includes lastSection (lit ''conclusion'') \<or>
         str_includes lastSection (lit ''summary'') \<or>
         str_includes lastSection (lit ''final thoughts''))"

text \<open>\<^verbatim>\<open>content.match(re) || []\<close>, then \<^verbatim>\<open>extractSections\<close> (lines 134 to 137) and
  \<^verbatim>\<open>extractTopics\<close> (lines 139 to 152).\<close>

definition regex_matches :: "js_string list \<Rightarrow> js_string list" where
  "regex_matches ms = (case match_g ms of None \<Rightarrow> [] | Some xs \<Rightarrow> xs)"

definition extractSections :: "js_string \<Rightarrow> js_string list" where
  "extractSections content =
     map (\<lambda>section. trim (replace_first heading_marker [] section))
       (regex_matches (heading_matches content))"

definition extractTopics :: "js_string \<Rightarrow> js_string list" where
  "extractTopics content =
     (let headings = regex_matches (heading_matches content);
          topics = foldl (\<lambda>topics heading.
                            set_add topics (trim (replace_first heading_marker [] heading)))
                     [] headings;
          emphasized = regex_matches (bold_matches content)
      in foldl (\<lambda>topics text. set_add topics (trim (replace_all bold_marker [] text)))
           topics emphasized)"

text \<open>\<^verbatim>\<open>calculateAverageReactions\<close> (lines 170 to 175): the sum by \<^verbatim>\<open>reduce\<close> from 0, each
  addition rounded, then the division by the length, rounded, then \<^verbatim>\<open>Math.round\<close>.\<close>

definition calculateAverageReactions :: "DevToArticle list \<Rightarrow> js_number" where
  "calculateAverageReactions articles =
     (if length articles = 0 then Finite 0
      else (let total = foldl (\<lambda>sum article. js_add sum (public_reactions_count article))
                          (Finite 0) articles
            in Math_round (js_div_length total (length articles))))"

text \<open>\<^verbatim>\<open>identifyExpertContributions\<close> (lines 225 to 238), which the first declaration of
  \<^verbatim>\<open>analyzeDiscussion\<close> (lines 75 to 87) calls for its \<^verbatim>\<open>expertContributions\<close>.\<close>

definition identifyExpertContributions :: "DevToComment list \<Rightarrow> ExpertContributions" where
  "identifyExpertContributions comments =
     (let expertComments =
            filter (\<lambda>comment. length (body_markdown comment) > 300 \<and>
                      (str_includes (body_markdown comment) fence \<or>
                       str_includes (body_markdown comment) (lit ''http'')))
              comments;
          expertAuthors = map (\<lambda>comment. username (user comment)) expertComments
      in \<lparr>count = length expertComments, authors = array_from_set expertAuthors\<rparr>)"

text \<open>The \<^verbatim>\<open>expertContributions\<close> of the second declaration of \<^verbatim>\<open>analyzeDiscussion\<close>
  (lines 302 to 313), the later one in the file and so the one in force; its other three
  fields do not enter it.\<close>

definition analyzeDiscussion_expertContributions :: "DevToComment list \<Rightarrow> ExpertContributions" where
  "analyzeDiscussion_expertContributions comments =
     \<lparr>count = length (filter (\<lambda>c. length (body_markdown c) > 300) comments),
      authors = array_from_set
                  (map (\<lambda>c. username (user c))
                     (filter (\<lambda>c. length (body_markdown c) > 300) comments))\<rparr>"

section \<open>services/devto.ts: buildCommentTree\<close>

text \<open>
  \<^verbatim>\<open>buildCommentTree\<close> (lines 87 to 110) has no throwing step on comment records, so the
  model is a total function. The input array holds one reference to each comment object, in order: the heap is the
  list of the objects and the array is \<open>[0..<length comments]\<close>. The first pass empties
  every \<^verbatim>\<open>children\<close> and fills \<^verbatim>\<open>commentMap\<close>; the second pass appends to the parent's
  \<^verbatim>\<open>children\<close> or to \<^verbatim>\<open>rootComments\<close>. The result is the root array and the heap the
  references point into.
\<close>

record CommentTree =
  heap :: "DevToComment list"
  rootComments :: "nat list"

text \<open>\<^verbatim>\<open>'parent_id' in comment && comment['parent_id']\<close>: the field is there and truthy
  (\<^verbatim>\<open>null\<close> and \<^verbatim>\<open>0\<close> are falsy).\<close>

definition has_parent :: "DevToComment \<Rightarrow> bool" where
  "has_parent c = (case parent_id c of Absent \<Rightarrow> False | Null \<Rightarrow> False | Parent p \<Rightarrow> p \<noteq> 0)"

definition parent_of :: "DevToComment \<Rightarrow> int" where
  "parent_of c = (case parent_id c of Absent \<Rightarrow> 0 | Null \<Rightarrow> 0 | Parent p \<Rightarrow> p)"

definition first_pass_step ::
  "DevToComment list \<times> (int \<rightharpoonup> nat) \<Rightarrow> nat \<Rightarrow> DevToComment list \<times> (int \<rightharpoonup> nat)" where
  "first_pass_step st i =
     (case st of (h, commentMap) \<Rightarrow>
        (h[i := (h ! i)\<lparr>children := []\<rparr>], commentMap(comment_id (h ! i) \<mapsto> i)))"

definition second_pass_step ::
  "(int \<rightharpoonup> nat) \<Rightarrow> DevToComment list \<times> nat list \<Rightarrow> nat \<Rightarrow> DevToComment list \<times> nat list" where
  "second_pass_step commentMap st i =
     (case st of (h, roots) \<Rightarrow>
        if has_parent (h ! i)
        then (case commentMap (parent_of (h ! i)) of
                None \<Rightarrow> (h, roots)
              | Some p \<Rightarrow> (h[p := (h ! p)\<lparr>children := children (h ! p) @ [i]\<rparr>], roots))
        else (h, roots @ [i]))"

definition buildCommentTree :: "DevToComment list \<Rightarrow> CommentTree" where
  "buildCommentTree comments =
     (let refs = [0..<length comments];
          (h1, commentMap) = foldl first_pass_step (comments, Map.empty) refs;
          (h2, roots) = foldl (second_pass_step commentMap) (h1, []) refs
      in \<lparr>heap = h2, rootComments = roots\<rparr>)"

text \<open>Flattening a result by pre-order traversal (the spec's round trip): a comment, then the traversals of its
  children in order. The traversal of a heap with a cycle does not return; the model
  bounds the depth of the descent by \<open>fuel\<close> and returns \<open>None\<close> when it is used up.\<close>

fun preorder :: "nat \<Rightarrow> DevToComment list \<Rightarrow> nat \<Rightarrow> nat list option" where
  "preorder 0 h i = None"
| "preorder (Suc fuel) h i =
     (case those (map (preorder fuel h) (children (h ! i))) of
        None \<Rightarrow> None
      | Some xss \<Rightarrow> Some (i # concat xss))"

definition flatten :: "nat \<Rightarrow> CommentTree \<Rightarrow> nat list option" where
  "flatten fuel t =
     (case those (map (preorder fuel (heap t)) (rootComments t)) of
        None \<Rightarrow> None
      | Some xss \<Rightarrow> Some (concat xss))"

definition identities :: "CommentTree \<Rightarrow> nat list \<Rightarrow> int list" where
  "identities t refs = map (\<lambda>i. comment_id (heap t ! i)) refs"

section \<open>Notions of the statements and proofs\<close>

subsection \<open>The comment tree in closed form\<close>

text \<open>What the two passes of \<^verbatim>\<open>buildCommentTree\<close> compute: after \<open>k\<close> steps of the first
  pass, \<^verbatim>\<open>commentMap\<close> sends an identity to the last of the first \<open>k\<close> comments that bears
  it; after \<open>k\<close> steps of the second pass, the children of comment \<open>j\<close> are the comments
  among the first \<open>k\<close> whose truthy \<^verbatim>\<open>parent_id\<close> the map sends to \<open>j\<close>.\<close>

definition clear_children :: "DevToComment \<Rightarrow> DevToComment" where
  "clear_children c = c\<lparr>children := []\<rparr>"

definition last_index_map :: "DevToComment list \<Rightarrow> nat \<Rightarrow> (int \<rightharpoonup> nat)" where
  "last_index_map comments k = map_of (rev (zip (map comment_id (take k comments)) [0..<k]))"

definition replies :: "(int \<rightharpoonup> nat) \<Rightarrow> DevToComment list \<Rightarrow> nat \<Rightarrow> nat \<Rightarrow> nat list" where
  "replies commentMap comments k j =
     filter (\<lambda>i. has_parent (comments ! i) \<and> commentMap (parent_of (comments ! i)) = Some j) [0..<k]"

text \<open>The parent links as a relation on references: \<open>up\<close> leads from a comment to the
  comment its declared parent resolves to. A rank decreases along every link; \<open>level\<close>
  turns a rank of the identities into one below the number of comments.\<close>

definition parent_index :: "DevToComment list \<Rightarrow> nat \<Rightarrow> nat option" where
  "parent_index cs i =
     (if has_parent (cs ! i) then last_index_map cs (length cs) (parent_of (cs ! i)) else None)"

definition up :: "DevToComment list \<Rightarrow> (nat \<times> nat) set" where
  "up cs = {(i, j). i < length cs \<and> parent_index cs i = Some j}"

definition ranked :: "DevToComment list \<Rightarrow> (nat \<Rightarrow> nat) \<Rightarrow> bool" where
  "ranked cs r = (\<forall>i j. (i, j) \<in> up cs \<longrightarrow> j < length cs \<and> r j < r i)"

definition level :: "(int \<Rightarrow> nat) \<Rightarrow> DevToComment list \<Rightarrow> nat \<Rightarrow> nat" where
  "level rank cs i =
     card {j. j < length cs \<and> rank (comment_id (cs ! j)) < rank (comment_id (cs ! i))}"

subsection \<open>Expert comments, bold spans, lines\<close>

text \<open>The test of \<^verbatim>\<open>identifyExpertContributions\<close> on one comment.\<close>

definition is_expert :: "DevToComment \<Rightarrow> bool" where
  "is_expert c =
     (length (body_markdown c) > 300 \<and>
      (str_includes (body_markdown c) fence \<or> str_includes (body_markdown c) (lit ''http'')))"

text \<open>The bold spans of a body as \<^verbatim>\<open>extractTopics\<close> adds them: each match without its
  \<^verbatim>\<open>**\<close>, trimmed.\<close>

definition emphasized_texts :: "js_string \<Rightarrow> js_string list" where
  "emphasized_texts content =
     map (\<lambda>text. trim (replace_all bold_marker [] text)) (regex_matches (bold_matches content))"

text \<open>The lines of a text: the pieces between its line terminators (line feed, carriage
  return, U+2028, U+2029), so that a carriage return and line feed in a row have an empty
  line between them.\<close>

fun lines_of :: "js_string \<Rightarrow> js_string list" where
  "lines_of [] = [[]]"
| "lines_of (c # s) =
     (if is_line_terminator c then [] # lines_of s
      else (case lines_of s of [] \<Rightarrow> [[c]] | l # ls \<Rightarrow> (c # l) # ls))"

text \<open>A bullet line is a line whose first non-blank character is a marker, and its text is
  what follows the marker, trimmed. A proper line is a bullet line with some text, or a
  line with no marker at all.\<close>

definition is_bullet_line :: "js_string \<Rightarrow> bool" where
  "is_bullet_line l = (case dropWhile is_space l of [] \<Rightarrow> False | c # r \<Rightarrow> is_marker c)"

definition bullet_text :: "js_string \<Rightarrow> js_string" where
  "bullet_text l = trim (tl (dropWhile is_space l))"

definition proper_line :: "js_string \<Rightarrow> bool" where
  "proper_line l = (if is_bullet_line l then bullet_text l \<noteq> [] else list_all not_marker l)"

text \<open>The optional \<^verbatim>\<open>s\<close> and colon of the prerequisites pattern are \<open>sfx\<close> before the text
  \<open>r\<close>: each is there, and \<open>r\<close> does not begin with one that could still be taken.\<close>

definition taken_suffix :: "js_string \<Rightarrow> js_string \<Rightarrow> bool" where
  "taken_suffix sfx r =
     (sfx \<in> set [[], [0x73], [0x53], [0x3A], [0x73, 0x3A], [0x53, 0x3A]] \<and>
      (r = [] \<or> sfx = [] \<and> hd r \<notin> set [0x73, 0x53, 0x3A] \<or>
       sfx \<in> set [[0x73], [0x53]] \<and> hd r \<noteq> 0x3A \<or>
       sfx \<in> set [[0x3A], [0x73, 0x3A], [0x53, 0x3A]]))"

text \<open>The items \<^verbatim>\<open>extractPrerequisites\<close> returns for a captured span, and the same read
  off the span from its first marker on.\<close>

definition item_texts :: "js_string \<Rightarrow> js_string list" where
  "item_texts s = map (\<lambda>item. trim (strip_marker item)) (bullet_matches s)"

definition items_from :: "js_string \<Rightarrow> js_string list" where
  "items_from d =
     (case d of
        [] \<Rightarrow> []
      | m # r \<Rightarrow>
          trim (takeWhile not_line_terminator (dropWhile is_space r))
          # item_texts (dropWhile not_line_terminator (dropWhile is_space r)))"

subsection \<open>Sample inputs\<close>

text \<open>Body texts: no code block, and three code blocks (six fences).\<close>

definition text_no_blocks :: js_string where
  "text_no_blocks = []"

definition text_three_blocks :: js_string where
  "text_three_blocks = concat (replicate 6 fence)"

text \<open>A bold span before a heading; a heading that holds a bold span, before three more;
  a bold span that a line break cuts.\<close>

definition newline :: js_string where
  "newline = [0x0A]"

definition bold_then_heading :: js_string where
  "bold_then_heading = lit ''**a**'' @ newline @ lit ''## b''"

definition heading_then_bold :: js_string where
  "heading_then_bold = lit ''## b **c** '' @ newline @ lit ''Some **b** and **d** text''"

definition bold_across_lines :: js_string where
  "bold_across_lines = lit ''**a'' @ newline @ lit ''b**''"

text \<open>A prerequisites line with a hyphenated word, a bullet line with nothing after its
  marker, and the body of the spec's first scenario, with a carriage return and a line
  feed at each line end: two bullet lines between two headings.\<close>

definition hyphenated :: js_string where
  "hyphenated = lit ''Prerequisites: command-line skills''"

definition empty_bullet :: js_string where
  "empty_bullet = lit ''Prerequisites:'' @ newline @ lit ''-'' @ newline @ lit ''foo''"

definition crlf :: js_string where
  "crlf = [0x0D, 0x0A]"

definition intro_tail :: js_string where
  "intro_tail = lit ''## Intro'' @ crlf @ lit ''Some introduction text''"

definition scenario1_span :: js_string where
  "scenario1_span = crlf @ lit ''- C# basics'' @ crlf @ lit ''- npm'' @ crlf"

definition scenario1 :: js_string where
  "scenario1 = lit ''## Prerequisites'' @ scenario1_span @ intro_tail"

text \<open>A body of 101 letters U+0130 (capital I with a dot above).\<close>

definition dotted_capitals :: js_string where
  "dotted_capitals = replicate 101 0x130"

text \<open>An article with a given reaction count.\<close>

definition article :: "js_number \<Rightarrow> DevToArticle" where
  "article r =
     \<lparr>article_id = 1, title = lit ''t'', tags = [lit ''go''], public_reactions_count = r\<rparr>"

text \<open>Comments: a short one with a given identity and parent, and one of 301 letters with
  no fence and no link.\<close>

definition someone :: DevToUser where
  "someone = \<lparr>name = lit ''U'', username = lit ''u'', summary = [], joined_at = []\<rparr>"

definition comment :: "int \<Rightarrow> parent_ref \<Rightarrow> DevToComment" where
  "comment i p =
     \<lparr>comment_id = i, parent_id = p, body_markdown = lit ''hi'', user = someone, children = []\<rparr>"

definition plain_long_comment :: DevToComment where
  "plain_long_comment =
     \<lparr>comment_id = 1, parent_id = Null, body_markdown = replicate 301 0x61,
      user = someone, children = []\<rparr>"

text \<open>Comment lists: a root with an orphan and a reply to itself; a reply to the identity 0;
  a thread given out of order; the spec's third scenario.\<close>

definition orphan_and_self :: "DevToComment list" where
  "orphan_and_self = [comment 1 Null, comment 3 (Parent 99), comment 5 (Parent 5)]"

definition reply_to_zero :: "DevToComment list" where
  "reply_to_zero = [comment 0 Absent, comment 7 (Parent 0)]"

definition thread :: "DevToComment list" where
  "thread = [comment 4 (Parent 2), comment 1 Null, comment 2 (Parent 1), comment 3 (Parent 1)]"

definition scenario3 :: "DevToComment list" where
  "scenario3 = [comment 1 Null, comment 2 (Parent 1), comment 3 (Parent 99)]"

definition rank_by_id :: "int \<Rightarrow> nat" where
  "rank_by_id i = nat i"

section \<open>The depth tier (C4, C5)\<close>

lemma decide_depth_cases:
  "(decide_depth ft n = Advanced \<longleftrightarrow> length (advanced ft) > 2 \<or> n > 5) \<and>
   (decide_depth ft n = Intermediate \<longleftrightarrow>
      \<not> (length (advanced ft) > 2 \<or> n > 5) \<and> (length (intermediate ft) > 3 \<or> n > 2)) \<and>
   (decide_depth ft n = Beginner \<longleftrightarrow>
      \<not> (length (advanced ft) > 2 \<or> n > 5) \<and> \<not> (length (intermediate ft) > 3 \<or> n > 2))"
  by (simp add: decide_depth_def)

text \<open>
  C4. For every body text, and whatever the case conversion that \<^verbatim>\<open>toLowerCase\<close> stands
  for, the depth of \<open>analyzeTechnicalDepth\<close> is \<open>Advanced\<close> exactly
  when more than 2 advanced terms are found or there are more than 5 fenced code blocks;
  otherwise \<open>Intermediate\<close> exactly when more than 3 intermediate terms are found or there
  are more than 2 code blocks; otherwise \<open>Beginner\<close>. The counts are those of the result:
  the number of matches of the fence pattern, and the dictionary terms that occur in the
  lower-cased body.
\<close>

theorem analyzeTechnicalDepth_tier:
  "(depth (analyzeTechnicalDepth toLowerCase content) = Advanced \<longleftrightarrow>
      length (advanced (technicalTerms (analyzeTechnicalDepth toLowerCase content))) > 2 \<or>
      codeBlockCount (analyzeTechnicalDepth toLowerCase content) > 5) \<and>
   (depth (analyzeTechnicalDepth toLowerCase content) = Intermediate \<longleftrightarrow>
      \<not> (length (advanced (technicalTerms (analyzeTechnicalDepth toLowerCase content))) > 2 \<or>
         codeBlockCount (analyzeTechnicalDepth toLowerCase content) > 5) \<and>
      (length (intermediate (technicalTerms (analyzeTechnicalDepth toLowerCase content))) > 3 \<or>
       codeBlockCount (analyzeTechnicalDepth toLowerCase content) > 2)) \<and>
   (depth (analyzeTechnicalDepth toLowerCase content) = Beginner \<longleftrightarrow>
      \<not> (length (advanced (technicalTerms (analyzeTechnicalDepth toLowerCase content))) > 2 \<or>
         codeBlockCount (analyzeTechnicalDepth toLowerCase content) > 5) \<and>
      \<not> (length (intermediate (technicalTerms (analyzeTechnicalDepth toLowerCase content))) > 3 \<or>
         codeBlockCount (analyzeTechnicalDepth toLowerCase content) > 2)) \<and>
   codeBlockCount (analyzeTechnicalDepth toLowerCase content) = count_code_blocks content \<and>
   advanced (technicalTerms (analyzeTechnicalDepth toLowerCase content)) =
     filter (\<lambda>t. str_includes (toLowerCase content) (toLowerCase t))
       [lit ''distributed systems'', lit ''microservices'', lit ''kubernetes'',
        lit ''machine learning'', lit ''blockchain''] \<and>
   intermediate (technicalTerms (analyzeTechnicalDepth toLowerCase content)) =
     filter (\<lambda>t. str_includes (toLowerCase content) (toLowerCase t))
       [lit ''recursion'', lit ''middleware'', lit ''authentication'', lit ''API'',
        lit ''database'']"
  unfolding analyzeTechnicalDepth_def Let_def
  using decide_depth_cases by (simp add: found_terms_def technicalTerms_dict_def)

text \<open>
  C5. For two body texts with the same number of found terms in each tier (under any one
  case conversion), the one with at
  least as many fenced code blocks has a depth tier at least as high, in the order
  \<open>Beginner < Intermediate < Advanced\<close>.
\<close>

theorem analyzeTechnicalDepth_monotone:
  assumes "length (beginner (technicalTerms (analyzeTechnicalDepth toLowerCase c1))) =
           length (beginner (technicalTerms (analyzeTechnicalDepth toLowerCase c2)))"
    and "length (intermediate (technicalTerms (analyzeTechnicalDepth toLowerCase c1))) =
         length (intermediate (technicalTerms (analyzeTechnicalDepth toLowerCase c2)))"
    and "length (advanced (technicalTerms (analyzeTechnicalDepth toLowerCase c1))) =
         length (advanced (technicalTerms (analyzeTechnicalDepth toLowerCase c2)))"
    and "codeBlockCount (analyzeTechnicalDepth toLowerCase c1) \<le> codeBlockCount (analyzeTechnicalDepth toLowerCase c2)"
  shows "tier_rank (depth (analyzeTechnicalDepth toLowerCase c1)) \<le> tier_rank (depth (analyzeTechnicalDepth toLowerCase c2))"
  using assms
  by (simp add: analyzeTechnicalDepth_def Let_def decide_depth_def tier_rank_def)

theorem analyzeTechnicalDepth_monotone_witness:
  "codeBlockCount (analyzeTechnicalDepth lower_basic text_no_blocks) = 0 \<and>
   codeBlockCount (analyzeTechnicalDepth lower_basic text_three_blocks) = 3 \<and>
   depth (analyzeTechnicalDepth lower_basic text_no_blocks) = Beginner \<and>
   depth (analyzeTechnicalDepth lower_basic text_three_blocks) = Intermediate \<and>
   tier_rank (depth (analyzeTechnicalDepth lower_basic text_no_blocks))
     \<le> tier_rank (depth (analyzeTechnicalDepth lower_basic text_three_blocks))"
proof -
  have a: "analyzeTechnicalDepth lower_basic text_no_blocks =
      \<lparr>depth = Beginner, codeBlockCount = 0,
       technicalTerms = \<lparr>beginner = [], intermediate = [], advanced = []\<rparr>,
       prerequisites = []\<rparr>"
    by code_simp
  have b: "analyzeTechnicalDepth lower_basic text_three_blocks =
      \<lparr>depth = Intermediate, codeBlockCount = 3,
       technicalTerms = \<lparr>beginner = [], intermediate = [], advanced = []\<rparr>,
       prerequisites = []\<rparr>"
    by code_simp
  show ?thesis
    using analyzeTechnicalDepth_monotone [of lower_basic text_no_blocks text_three_blocks]
    by (simp add: a b)
qed

section \<open>Bodies without a heading marker (C10)\<close>

text \<open>
  C10, as claimed: for a body with no \<^verbatim>\<open>##\<close>, \<open>hasIntroduction\<close> is true exactly when the
  body contains "introduction" in any case or is longer than 200 characters. The length
  that line 124 tests is that of the lower-cased body, and \<^verbatim>\<open>toLowerCase\<close> turns the letter
  U+0130 into two code units: a body of 101 such letters has no \<^verbatim>\<open>##\<close> and no letter of
  "introduction" and is 101 code units long, its lower-cased form is 202 code units long,
  and \<open>hasIntroduction\<close> is true.
\<close>

theorem hasIntroduction_lowered_length:
  "\<not> str_includes dotted_capitals heading_marker \<and>
   length dotted_capitals = 101 \<and>
   \<not> str_includes (map ascii_lower dotted_capitals) (lit ''introduction'') \<and>
   \<not> str_includes (lower_basic dotted_capitals) (lit ''introduction'') \<and>
   length (lower_basic dotted_capitals) = 202 \<and>
   hasIntroduction lower_basic dotted_capitals = Inr True"
  by code_simp

text \<open>
  C10, amended. For every body text in which \<^verbatim>\<open>##\<close> does not occur, and whatever the case
  conversion, \<open>hasIntroduction\<close> returns (without a \<^verbatim>\<open>TypeError\<close>) whether the whole body,
  lower-cased, contains "introduction" or the lower-cased body is longer than 200 code
  units, and \<open>hasConclusion\<close> returns whether the whole body, lower-cased, contains
  "conclusion", "summary" or "final thoughts".
\<close>

theorem no_heading_whole_body:
  assumes "\<not> str_includes content heading_marker"
  shows "hasIntroduction toLowerCase content =
           Inr (str_includes (toLowerCase content) (lit ''introduction'') \<or>
                length (toLowerCase content) > 200) \<and>
         hasConclusion toLowerCase content =
           (str_includes (toLowerCase content) (lit ''conclusion'') \<or>
            str_includes (toLowerCase content) (lit ''summary'') \<or>
            str_includes (toLowerCase content) (lit ''final thoughts''))"
proof -
  from assms have "find_str heading_marker content = None"
    by (simp add: str_includes_def split: option.splits)
  moreover have "heading_marker \<noteq> []"
    by (simp add: heading_marker_def)
  ultimately have sp: "str_split heading_marker content = [content]"
    by simp
  have e: "\<not> str_includes [] (lit ''conclusion'')" "\<not> str_includes [] (lit ''summary'')"
    "\<not> str_includes [] (lit ''final thoughts'')"
    by (simp_all add: str_includes_def lit_def)
  show ?thesis
    using e
    by (auto simp add: hasIntroduction_def hasConclusion_def sp Let_def simp del: str_split.simps)
qed

theorem no_heading_whole_body_witness:
  "\<not> str_includes (lit ''An Introduction # and a Summary'') heading_marker \<and>
   hasIntroduction lower_basic (lit ''An Introduction # and a Summary'') = Inr True \<and>
   hasConclusion lower_basic (lit ''An Introduction # and a Summary'') = True \<and>
   \<not> str_includes (lit ''Hello'') heading_marker \<and>
   hasIntroduction lower_basic (lit ''Hello'') = Inr False \<and>
   hasConclusion lower_basic (lit ''Hello'') = False"
proof -
  have a: "\<not> str_includes (lit ''An Introduction # and a Summary'') heading_marker" by code_simp
  have b: "\<not> str_includes (lit ''Hello'') heading_marker" by code_simp
  have c: "str_includes (lower_basic (lit ''An Introduction # and a Summary'')) (lit ''introduction'')"
    by code_simp
  have d: "str_includes (lower_basic (lit ''An Introduction # and a Summary'')) (lit ''summary'')"
    by code_simp
  have e: "\<not> str_includes (lower_basic (lit ''Hello'')) (lit ''introduction'')"
    "\<not> str_includes (lower_basic (lit ''Hello'')) (lit ''conclusion'')"
    "\<not> str_includes (lower_basic (lit ''Hello'')) (lit ''summary'')"
    "\<not> str_includes (lower_basic (lit ''Hello'')) (lit ''final thoughts'')"
    "\<not> length (lower_basic (lit ''Hello'')) > 200" by code_simp+
  show ?thesis
    using no_heading_whole_body [OF a, of lower_basic] no_heading_whole_body [OF b, of lower_basic]
      a b c d e
    by simp
qed

section \<open>The two passes of buildCommentTree\<close>

text \<open>After the first pass every \<^verbatim>\<open>children\<close> is empty and \<^verbatim>\<open>commentMap\<close> sends an identity
  to the last comment that bears it; after the second pass the roots are the comments that
  declare no parent, and the children of a comment are the comments whose declared parent
  the map sends to it, both in input order.\<close>

lemma first_pass_closed:
  "k \<le> length cs \<Longrightarrow>
   foldl first_pass_step (cs, Map.empty) [0..<k] =
     (map clear_children (take k cs) @ drop k cs, last_index_map cs k)"
proof (induction k)
  case 0
  show ?case by (simp add: last_index_map_def)
next
  case (Suc k)
  then have k: "k < length cs" by simp
  let ?h = "map clear_children (take k cs) @ drop k cs"
  have hk: "?h ! k = cs ! k"
    using k by (simp add: nth_append)
  have upd: "?h[k := clear_children (cs ! k)] = map clear_children (take (Suc k) cs) @ drop (Suc k) cs"
    using k by (simp add: list_update_append take_Suc_conv_app_nth Cons_nth_drop_Suc [symmetric])
  have m: "(last_index_map cs k)(comment_id (cs ! k) \<mapsto> k) = last_index_map cs (Suc k)"
    using k by (simp add: last_index_map_def take_Suc_conv_app_nth)
  have "foldl first_pass_step (cs, Map.empty) [0..<Suc k] =
        first_pass_step (?h, last_index_map cs k) k"
    using Suc by simp
  also have "\<dots> = (?h[k := clear_children (cs ! k)], (last_index_map cs k)(comment_id (cs ! k) \<mapsto> k))"
    by (simp only: first_pass_step_def prod.case hk clear_children_def)
  finally show ?case by (simp only: upd m)
qed

lemma has_parent_children [simp]: "has_parent (c\<lparr>children := xs\<rparr>) = has_parent c"
  by (simp add: has_parent_def)

lemma parent_of_children [simp]: "parent_of (c\<lparr>children := xs\<rparr>) = parent_of c"
  by (simp add: parent_of_def)

lemma last_index_map_bound: "last_index_map cs k p = Some j \<Longrightarrow> j < k"
  unfolding last_index_map_def
  by (auto dest!: map_of_SomeD set_zip_rightD)

lemma second_pass_closed:
  assumes bound: "\<And>p j. commentMap p = Some j \<Longrightarrow> j < length cs"
  shows "k \<le> length cs \<Longrightarrow>
   foldl (second_pass_step commentMap) (map clear_children cs, []) [0..<k] =
     (map (\<lambda>j. (cs ! j)\<lparr>children := replies commentMap cs k j\<rparr>) [0..<length cs],
      filter (\<lambda>i. \<not> has_parent (cs ! i)) [0..<k])"
proof (induction k)
  case 0
  show ?case
    by (auto simp: replies_def clear_children_def intro!: nth_equalityI)
next
  case (Suc k)
  then have k: "k < length cs" by simp
  let ?h = "map (\<lambda>j. (cs ! j)\<lparr>children := replies commentMap cs k j\<rparr>) [0..<length cs]"
  let ?h' = "map (\<lambda>j. (cs ! j)\<lparr>children := replies commentMap cs (Suc k) j\<rparr>) [0..<length cs]"
  let ?r = "filter (\<lambda>i. \<not> has_parent (cs ! i)) [0..<k]"
  have fold: "foldl (second_pass_step commentMap) (map clear_children cs, []) [0..<Suc k] =
      second_pass_step commentMap (?h, ?r) k"
    using Suc by simp
  have hk: "has_parent (?h ! k) = has_parent (cs ! k)" "parent_of (?h ! k) = parent_of (cs ! k)"
    using k by simp_all
  show ?case
  proof (cases "has_parent (cs ! k)")
    case False
    then have "replies commentMap cs (Suc k) = replies commentMap cs k"
      by (auto simp: replies_def)
    with False show ?thesis
      unfolding fold by (simp add: second_pass_step_def hk)
  next
    case True
    show ?thesis
    proof (cases "commentMap (parent_of (cs ! k))")
      case None
      then have "replies commentMap cs (Suc k) = replies commentMap cs k"
        by (auto simp: replies_def)
      with True None show ?thesis
        unfolding fold by (simp add: second_pass_step_def hk)
    next
      case (Some p)
      then have p: "p < length cs" by (rule bound)
      have "?h[p := (?h ! p)\<lparr>children := children (?h ! p) @ [k]\<rparr>] = ?h'"
      proof (rule nth_equalityI)
        show "length (?h[p := (?h ! p)\<lparr>children := children (?h ! p) @ [k]\<rparr>]) = length ?h'"
          by simp
      next
        fix j assume "j < length (?h[p := (?h ! p)\<lparr>children := children (?h ! p) @ [k]\<rparr>])"
        then have j: "j < length cs" by simp
        show "?h[p := (?h ! p)\<lparr>children := children (?h ! p) @ [k]\<rparr>] ! j = ?h' ! j"
          using j p True Some by (cases "j = p") (auto simp: replies_def)
      qed
      with True Some show ?thesis
        unfolding fold by (simp add: second_pass_step_def hk)
    qed
  qed
qed

lemma buildCommentTree_closed:
  "buildCommentTree cs =
     \<lparr>heap = map (\<lambda>j. (cs ! j)\<lparr>children := replies (last_index_map cs (length cs)) cs (length cs) j\<rparr>)
               [0..<length cs],
      rootComments = filter (\<lambda>i. \<not> has_parent (cs ! i)) [0..<length cs]\<rparr>"
  unfolding buildCommentTree_def Let_def
  by (simp add: first_pass_closed second_pass_closed [OF last_index_map_bound])

section \<open>Arrays from sets\<close>

text \<open>Adding the elements of a list to a set one by one, and reading the set as an array,
  keeps the first occurrence of each element, in order.\<close>

lemma foldl_set_add:
  "foldl set_add acc xs = acc @ filter (\<lambda>x. x \<notin> set acc) (rev (remdups (rev xs)))"
proof (induction xs arbitrary: acc rule: rev_induct)
  case Nil
  show ?case by simp
next
  case (snoc x xs)
  have "foldl set_add acc (xs @ [x]) =
        set_add (acc @ filter (\<lambda>x. x \<notin> set acc) (rev (remdups (rev xs)))) x"
    by (simp only: foldl_append foldl.simps snoc.IH)
  also have "\<dots> = acc @ filter (\<lambda>x. x \<notin> set acc) (rev (remdups (rev (xs @ [x]))))"
    by (auto simp: set_add_def)
  finally show ?case .
qed

lemma array_from_set_eq: "array_from_set xs = rev (remdups (rev xs))"
  by (simp add: array_from_set_def foldl_set_add)

lemma array_from_set_distinct: "distinct (array_from_set xs)"
  by (simp add: array_from_set_eq)

lemma array_from_set_set: "set (array_from_set xs) = set xs"
  by (simp add: array_from_set_eq)

section \<open>Expert contributions (C1)\<close>

lemma str_includes_set: "str_includes s t \<Longrightarrow> set t \<subseteq> set s"
  by (auto simp: str_includes_def split: option.splits dest!: find_str_decomp)

text \<open>\<^verbatim>\<open>identifyExpertContributions\<close> does count exactly the comments longer than 300
  characters that contain a fence or "http", and its authors are their distinct usernames.\<close>

lemma identifyExpertContributions_spec:
  "count (identifyExpertContributions comments) = length (filter is_expert comments) \<and>
   distinct (authors (identifyExpertContributions comments)) \<and>
   set (authors (identifyExpertContributions comments)) =
     set (map (\<lambda>c. username (user c)) (filter is_expert comments))"
proof -
  have "is_expert = (\<lambda>comment. length (body_markdown comment) > 300 \<and>
      (str_includes (body_markdown comment) fence \<or> str_includes (body_markdown comment) (lit ''http'')))"
    by (rule ext) (simp add: is_expert_def)
  then show ?thesis
    by (simp add: identifyExpertContributions_def Let_def
        array_from_set_distinct array_from_set_set)
qed

text \<open>
  C1. The claim: \<open>analyzeDiscussion\<close> counts a comment as an expert contribution if and
  only if its body is longer than 300 characters and contains a fence or "http". The
  declaration of \<open>analyzeDiscussion\<close> in force (lines 302 to 313) tests the length alone:
  a comment of 301 letters \<^verbatim>\<open>a\<close>, with no fence and no "http", is counted and its
  author listed, where \<^verbatim>\<open>identifyExpertContributions\<close> counts nothing.
\<close>

theorem analyzeDiscussion_counts_plain_long_comment:
  "length (body_markdown plain_long_comment) = 301 \<and>
   \<not> str_includes (body_markdown plain_long_comment) fence \<and>
   \<not> str_includes (body_markdown plain_long_comment) (lit ''http'') \<and>
   \<not> is_expert plain_long_comment \<and>
   analyzeDiscussion_expertContributions [plain_long_comment] = \<lparr>count = 1, authors = [lit ''u'']\<rparr> \<and>
   identifyExpertContributions [plain_long_comment] = \<lparr>count = 0, authors = []\<rparr>"
proof -
  have len: "length (body_markdown plain_long_comment) = 301"
    by (simp add: plain_long_comment_def)
  have f: "\<not> str_includes (body_markdown plain_long_comment) fence"
    by (auto dest!: str_includes_set simp: plain_long_comment_def fence_def)
  have h: "\<not> str_includes (body_markdown plain_long_comment) (lit ''http'')"
    by (auto dest!: str_includes_set simp: plain_long_comment_def lit_def)
  have u: "username (user plain_long_comment) = lit ''u''"
    by (simp add: plain_long_comment_def someone_def)
  have "analyzeDiscussion_expertContributions [plain_long_comment] = \<lparr>count = 1, authors = [lit ''u'']\<rparr>"
    by (simp add: analyzeDiscussion_expertContributions_def len u array_from_set_def set_add_def)
  moreover have "identifyExpertContributions [plain_long_comment] = \<lparr>count = 0, authors = []\<rparr>"
    by (simp add: identifyExpertContributions_def Let_def f h array_from_set_def)
  ultimately show ?thesis using len f h by (simp add: is_expert_def)
qed

section \<open>Roots of the comment tree (C2, C9)\<close>

text \<open>
  C2, as claimed: every comment whose declared parent is absent from the input, and every
  comment whose declared parent is its own identity, is in the returned root list. On the
  input of three comments with identities 1 (no parent), 3 (parent 99) and 5 (parent 5)
  the root list holds the first comment only: the second is in no list, and the third is
  a child of itself.
\<close>

theorem buildCommentTree_drops_orphan_and_self_reply:
  "parent_id (orphan_and_self ! 1) = Parent 99 \<and>
   99 \<notin> set (map comment_id orphan_and_self) \<and>
   1 \<notin> set (rootComments (buildCommentTree orphan_and_self)) \<and>
   parent_id (orphan_and_self ! 2) = Parent 5 \<and>
   comment_id (orphan_and_self ! 2) = 5 \<and>
   2 \<notin> set (rootComments (buildCommentTree orphan_and_self)) \<and>
   rootComments (buildCommentTree orphan_and_self) = [0] \<and>
   map children (heap (buildCommentTree orphan_and_self)) = [[], [], [2]]"
  by code_simp

lemma last_index_map_None:
  "p \<notin> comment_id ` set cs \<Longrightarrow> last_index_map cs (length cs) p = None"
proof -
  assume p: "p \<notin> comment_id ` set cs"
  have "map fst (zip (map comment_id cs) [0..<length cs]) = map comment_id cs"
    by simp
  then have "fst ` set (zip (map comment_id cs) [0..<length cs]) = comment_id ` set cs"
    by (metis set_map)
  with p show ?thesis
    by (simp add: last_index_map_def map_of_eq_None_iff)
qed

lemma last_index_map_distinct:
  "distinct (map comment_id cs) \<Longrightarrow> i < length cs \<Longrightarrow>
   last_index_map cs (length cs) (comment_id (cs ! i)) = Some i"
proof -
  assume d: "distinct (map comment_id cs)" and i: "i < length cs"
  have "(comment_id (cs ! i), i) \<in> set (zip (map comment_id cs) [0..<length cs])"
    using i by (auto simp: in_set_zip intro!: exI [of _ i])
  then show ?thesis
    unfolding last_index_map_def using d
    by (intro map_of_is_SomeI) (simp_all add: rev_map [symmetric])
qed

lemma heap_children:
  "j < length cs \<Longrightarrow>
   children (heap (buildCommentTree cs) ! j) =
     replies (last_index_map cs (length cs)) cs (length cs) j"
  by (simp add: buildCommentTree_closed)

text \<open>
  C2, amended. \<open>buildCommentTree\<close> is total (the code has no failing step on comment
  records), and its root list is exactly the comments, in input order, that declare no
  parent: the field is missing, \<^verbatim>\<open>null\<close> or 0. A comment that declares a non-zero parent
  absent from the input is in neither the root list nor any \<^verbatim>\<open>children\<close>; a comment that
  declares its own identity as its parent (identities being unique) is not a root but a
  child of itself.
\<close>

theorem buildCommentTree_roots:
  "rootComments (buildCommentTree comments) =
     filter (\<lambda>i. \<not> has_parent (comments ! i)) [0..<length comments] \<and>
   (i < length comments \<and> has_parent (comments ! i) \<and>
    parent_of (comments ! i) \<notin> comment_id ` set comments \<longrightarrow>
      i \<notin> set (rootComments (buildCommentTree comments)) \<and>
      list_all (\<lambda>c. i \<notin> set (children c)) (heap (buildCommentTree comments))) \<and>
   (i < length comments \<and> has_parent (comments ! i) \<and> distinct (map comment_id comments) \<and>
    parent_of (comments ! i) = comment_id (comments ! i) \<longrightarrow>
      i \<notin> set (rootComments (buildCommentTree comments)) \<and>
      i \<in> set (children (heap (buildCommentTree comments) ! i)))"
proof (intro conjI impI)
  show r: "rootComments (buildCommentTree comments) =
     filter (\<lambda>i. \<not> has_parent (comments ! i)) [0..<length comments]"
    by (simp add: buildCommentTree_closed)
  {
    assume a: "i < length comments \<and> has_parent (comments ! i) \<and>
      parent_of (comments ! i) \<notin> comment_id ` set comments"
    then show "i \<notin> set (rootComments (buildCommentTree comments))"
      by (simp add: r)
    from a have "last_index_map comments (length comments) (parent_of (comments ! i)) = None"
      by (simp add: last_index_map_None)
    then show "list_all (\<lambda>c. i \<notin> set (children c)) (heap (buildCommentTree comments))"
      by (simp add: buildCommentTree_closed list_all_iff replies_def)
  }
  {
    assume a: "i < length comments \<and> has_parent (comments ! i) \<and> distinct (map comment_id comments) \<and>
      parent_of (comments ! i) = comment_id (comments ! i)"
    then show "i \<notin> set (rootComments (buildCommentTree comments))"
      by (simp add: r)
    from a have "last_index_map comments (length comments) (parent_of (comments ! i)) = Some i"
      by (simp add: last_index_map_distinct)
    with a show "i \<in> set (children (heap (buildCommentTree comments) ! i))"
      by (simp add: heap_children replies_def)
  }
qed

theorem buildCommentTree_roots_witness:
  "1 < length orphan_and_self \<and> has_parent (orphan_and_self ! 1) \<and>
   parent_of (orphan_and_self ! 1) \<notin> comment_id ` set orphan_and_self \<and>
   1 \<notin> set (rootComments (buildCommentTree orphan_and_self)) \<and>
   list_all (\<lambda>c. 1 \<notin> set (children c)) (heap (buildCommentTree orphan_and_self)) \<and>
   2 < length orphan_and_self \<and> has_parent (orphan_and_self ! 2) \<and>
   distinct (map comment_id orphan_and_self) \<and>
   parent_of (orphan_and_self ! 2) = comment_id (orphan_and_self ! 2) \<and>
   2 \<notin> set (rootComments (buildCommentTree orphan_and_self)) \<and>
   2 \<in> set (children (heap (buildCommentTree orphan_and_self) ! 2)) \<and>
   rootComments (buildCommentTree orphan_and_self) = [0]"
proof -
  have a: "1 < length orphan_and_self \<and> has_parent (orphan_and_self ! 1) \<and>
      parent_of (orphan_and_self ! 1) \<notin> comment_id ` set orphan_and_self"
    by (simp add: orphan_and_self_def comment_def has_parent_def parent_of_def)
  have b: "2 < length orphan_and_self \<and> has_parent (orphan_and_self ! 2) \<and>
      distinct (map comment_id orphan_and_self) \<and>
      parent_of (orphan_and_self ! 2) = comment_id (orphan_and_self ! 2)"
    by (simp add: orphan_and_self_def comment_def has_parent_def parent_of_def)
  have c: "filter (\<lambda>i. \<not> has_parent (orphan_and_self ! i)) [0..<length orphan_and_self] = [0]"
    by code_simp
  show ?thesis
    using buildCommentTree_roots [of orphan_and_self 1] buildCommentTree_roots [of orphan_and_self 2]
      a b c
    by simp
qed

text \<open>
  C9. A comment whose declared parent identity is 0 is placed in the root list and in no
  \<^verbatim>\<open>children\<close>, whether or not a comment with identity 0 is in the input; the roots and
  the children of the result are those obtained when the comment has no \<^verbatim>\<open>parent_id\<close>
  field at all.
\<close>

theorem parent_zero_is_root:
  assumes "i < length comments" and "parent_id (comments ! i) = Parent 0"
  shows "i \<in> set (rootComments (buildCommentTree comments)) \<and>
         list_all (\<lambda>c. i \<notin> set (children c)) (heap (buildCommentTree comments)) \<and>
         rootComments (buildCommentTree (comments[i := (comments ! i)\<lparr>parent_id := Absent\<rparr>])) =
           rootComments (buildCommentTree comments) \<and>
         map children (heap (buildCommentTree (comments[i := (comments ! i)\<lparr>parent_id := Absent\<rparr>]))) =
           map children (heap (buildCommentTree comments))"
proof -
  let ?cs' = "comments[i := (comments ! i)\<lparr>parent_id := Absent\<rparr>]"
  have np: "\<not> has_parent (comments ! i)"
    using assms by (simp add: has_parent_def)
  have hp: "has_parent (?cs' ! k) = has_parent (comments ! k)" if "k < length comments" for k
    using that assms by (cases "k = i") (simp_all add: has_parent_def)
  have po: "parent_of (?cs' ! k) = parent_of (comments ! k)" if "k < length comments" for k
    using that assms by (cases "k = i") (simp_all add: parent_of_def)
  have ids: "map comment_id ?cs' = map comment_id comments"
    using assms by (simp add: map_update list_update_same_conv)
  have lim: "last_index_map ?cs' (length comments) = last_index_map comments (length comments)"
    using ids by (simp add: last_index_map_def)
  have roots: "filter (\<lambda>k. \<not> has_parent (?cs' ! k)) [0..<length comments] =
               filter (\<lambda>k. \<not> has_parent (comments ! k)) [0..<length comments]"
    by (rule filter_cong) (simp_all add: hp)
  have reps: "replies M ?cs' (length comments) j = replies M comments (length comments) j" for M j
    unfolding replies_def by (rule filter_cong) (simp_all add: hp po)
  have 1: "i \<in> set (rootComments (buildCommentTree comments))"
    using assms(1) np by (simp add: buildCommentTree_closed)
  have 2: "list_all (\<lambda>c. i \<notin> set (children c)) (heap (buildCommentTree comments))"
    using np by (simp add: buildCommentTree_closed list_all_iff replies_def)
  have 3: "rootComments (buildCommentTree ?cs') = rootComments (buildCommentTree comments)"
    by (simp add: buildCommentTree_closed roots)
  have 4: "map children (heap (buildCommentTree ?cs')) = map children (heap (buildCommentTree comments))"
    by (simp add: buildCommentTree_closed lim reps)
  from 1 2 3 4 show ?thesis by simp
qed

theorem parent_zero_is_root_witness:
  "1 < length reply_to_zero \<and> parent_id (reply_to_zero ! 1) = Parent 0 \<and>
   comment_id (reply_to_zero ! 0) = 0 \<and>
   1 \<in> set (rootComments (buildCommentTree reply_to_zero)) \<and>
   rootComments (buildCommentTree reply_to_zero) = [0, 1] \<and>
   map children (heap (buildCommentTree reply_to_zero)) = [[], []]"
proof -
  have a: "1 < length reply_to_zero" "parent_id (reply_to_zero ! 1) = Parent 0"
    by (simp_all add: reply_to_zero_def comment_def)
  have b: "comment_id (reply_to_zero ! 0) = 0"
    by (simp add: reply_to_zero_def comment_def)
  have c: "rootComments (buildCommentTree reply_to_zero) = [0, 1] \<and>
      map children (heap (buildCommentTree reply_to_zero)) = [[], []]"
    by code_simp
  show ?thesis
    using parent_zero_is_root [OF a] a b c by simp
qed

section \<open>Occurrences of a pattern\<close>

text \<open>A string includes another exactly when it splits around it; the first occurrence
  of a pattern is where no occurrence begins earlier.\<close>

lemma find_str_found: "find_str t (b @ t @ a) \<noteq> None"
proof (induction b)
  case Nil
  show ?case
  proof (cases "t @ a")
    case Nil
    then show ?thesis by simp
  next
    case (Cons x xs)
    have "startsWith (t @ a) t" by (simp add: startsWith_def)
    then have "startsWith (x # xs) t" by (simp only: Cons)
    then show ?thesis by (simp add: Cons)
  qed
next
  case (Cons c b)
  then show ?case by (auto split: option.splits)
qed

lemma str_includes_iff: "str_includes s t \<longleftrightarrow> (\<exists>b a. s = b @ t @ a)"
proof
  assume "str_includes s t"
  then show "\<exists>b a. s = b @ t @ a"
    by (auto simp: str_includes_def split: option.splits dest: find_str_decomp)
next
  assume "\<exists>b a. s = b @ t @ a"
  then show "str_includes s t"
    using find_str_found by (auto simp: str_includes_def split: option.splits)
qed

lemma str_includes_Cons: "str_includes s t \<Longrightarrow> str_includes (c # s) t"
  unfolding str_includes_iff by (metis append_Cons)

lemma str_includes_append: "str_includes s t \<Longrightarrow> str_includes (s @ u) t"
  unfolding str_includes_iff by (metis append.assoc)

lemma find_str_none: "\<not> str_includes s pat \<Longrightarrow> find_str pat s = None"
  by (simp add: str_includes_def split: option.splits)

lemma no_start_before_first:
  assumes no: "\<not> str_includes ((c # a) @ butlast pat) pat" and ne: "pat \<noteq> []"
  shows "\<not> startsWith (c # a @ pat @ r) pat"
proof
  assume "startsWith (c # a @ pat @ r) pat"
  then have eq: "take (length pat) (c # a @ pat @ r) = pat"
    by (simp add: startsWith_def)
  have "length pat \<le> length (c # a @ butlast pat)"
    using ne by simp
  moreover have "c # a @ pat @ r = (c # a @ butlast pat) @ [last pat] @ r"
    using ne by simp
  ultimately have "take (length pat) (c # a @ pat @ r) = take (length pat) (c # a @ butlast pat)"
    by (simp only: take_append) simp
  with eq have "c # a @ butlast pat = pat @ drop (length pat) (c # a @ butlast pat)"
    by (metis append_take_drop_id)
  then have "str_includes ((c # a) @ butlast pat) pat"
    unfolding str_includes_iff by (metis append_Cons append_Nil)
  with no show False by simp
qed

lemma find_str_first:
  assumes ne: "pat \<noteq> []"
  shows "\<not> str_includes (a @ butlast pat) pat \<Longrightarrow> find_str pat (a @ pat @ r) = Some (a, r)"
proof (induction a)
  case Nil
  from ne obtain c s where cs: "pat @ r = c # s" by (cases pat) auto
  have "startsWith (pat @ r) pat" by (simp add: startsWith_def)
  moreover have "drop (length pat) (pat @ r) = r" by simp
  ultimately have "find_str pat (pat @ r) = Some ([], r)"
    unfolding cs by (metis find_str.simps(2))
  then show ?case by simp
next
  case (Cons c a)
  have no: "\<not> startsWith (c # a @ pat @ r) pat"
    using Cons.prems ne by (rule no_start_before_first)
  have "\<not> str_includes (a @ butlast pat) pat"
    using Cons.prems str_includes_Cons [of "a @ butlast pat" pat c] by auto
  from Cons.IH [OF this] no show ?case by simp
qed

section \<open>Topics (C8)\<close>

lemma dropWhile_rev_dropWhile:
  "dropWhile P (rev (dropWhile P (rev (dropWhile P s)))) = rev (dropWhile P (rev (dropWhile P s)))"
proof (cases "dropWhile P s")
  case Nil
  show ?thesis by (simp only: Nil rev.simps dropWhile.simps)
next
  case (Cons x u)
  then have nx: "\<not> P x"
    by (metis hd_dropWhile list.sel(1) list.distinct(1))
  have "dropWhile P (rev u @ [x]) = dropWhile P (rev u) @ [x]"
    using nx by (simp add: dropWhile_append)
  moreover have "dropWhile P (x # rev (dropWhile P (rev u))) = x # rev (dropWhile P (rev u))"
    using nx by simp
  ultimately show ?thesis
    by (simp add: Cons)
qed

lemma trim_trim: "trim (trim s) = trim s"
  by (simp add: trim_def dropWhile_rev_dropWhile)

lemma trim_spaces_append: "list_all is_space ws \<Longrightarrow> trim (ws @ s) = trim s"
proof -
  assume "list_all is_space ws"
  then have "dropWhile is_space (ws @ s) = dropWhile is_space s"
    by (intro dropWhile_append2) (simp add: list_all_iff)
  then show ?thesis
    by (simp only: trim_def)
qed

lemma regex_matches_all: "regex_matches ms = ms"
  by (simp add: regex_matches_def match_g_def)

lemma extractTopics_fold:
  "extractTopics content = foldl set_add [] (extractSections content @ emphasized_texts content)"
  by (simp add: extractTopics_def extractSections_def emphasized_texts_def Let_def foldl_map)

text \<open>The heading texts, read off the text: nothing where there is no \<^verbatim>\<open>##\<close>; after the
  first \<^verbatim>\<open>##\<close> and the white space that follows it, the rest of the line, and then the
  heading texts of what follows that line.\<close>

lemma heading_marker_chars: "heading_marker \<noteq> []" "butlast heading_marker = [0x23]"
  by (simp_all add: heading_marker_def)

lemma heading_text_of:
  "trim (replace_first heading_marker [] (heading_marker @ s)) = trim s"
proof -
  have "find_str heading_marker ([] @ heading_marker @ s) = Some ([], s)"
    by (rule find_str_first) (simp_all add: heading_marker_def str_includes_def startsWith_def)
  then show ?thesis
    by (simp add: replace_first_def)
qed

lemma extractSections_none:
  "\<not> str_includes s heading_marker \<Longrightarrow> extractSections s = []"
  by (subst extractSections_def, subst heading_matches.simps)
     (simp add: find_str_none regex_matches_all)

lemma extractSections_unfold:
  assumes first: "\<not> str_includes (a @ [0x23]) heading_marker"
  shows "extractSections (a @ heading_marker @ r) =
     trim (takeWhile not_line_terminator (dropWhile is_space r))
     # extractSections (dropWhile not_line_terminator (dropWhile is_space r))"
proof -
  have f: "find_str heading_marker (a @ heading_marker @ r) = Some (a, r)"
    using first by (intro find_str_first) (simp_all add: heading_marker_chars)
  have t: "trim (takeWhile is_space r @ takeWhile not_line_terminator (dropWhile is_space r)) =
           trim (takeWhile not_line_terminator (dropWhile is_space r))"
    by (rule trim_spaces_append) (auto simp: list_all_iff dest: set_takeWhileD)
  show ?thesis
    by (subst extractSections_def, subst heading_matches.simps)
       (simp add: f regex_matches_all heading_text_of t extractSections_def del: heading_matches.simps)
qed

lemma extractSections_line:
  assumes first: "\<not> str_includes (a @ [0x23]) heading_marker"
    and ws: "list_all is_space ws"
    and line: "line \<noteq> []" "\<not> is_space (hd line)" "list_all not_line_terminator line"
    and rest: "rest = [] \<or> is_line_terminator (hd rest)"
  shows "extractSections (a @ heading_marker @ ws @ line @ rest) = trim line # extractSections rest"
proof -
  from line obtain x where x: "x \<in> set line" "\<not> is_space x"
    by (cases line) auto
  have "dropWhile is_space (ws @ line @ rest) = dropWhile is_space (line @ rest)"
    using ws by (simp add: list_all_iff)
  also have "\<dots> = line @ rest"
    using line by (cases line) auto
  finally have d: "dropWhile is_space (ws @ line @ rest) = line @ rest" .
  have r0: "takeWhile not_line_terminator rest = [] \<and> dropWhile not_line_terminator rest = rest"
    using rest by (cases rest) (auto simp: not_line_terminator_def)
  have tk: "takeWhile not_line_terminator (line @ rest) = line"
    using line r0 by (simp add: list_all_iff)
  have dr: "dropWhile not_line_terminator (line @ rest) = rest"
    using line r0 by (simp add: list_all_iff)
  show ?thesis
    using extractSections_unfold [OF first, of "ws @ line @ rest"]
    by (simp only: d tk dr)
qed

lemma extractSections_blank:
  assumes first: "\<not> str_includes (a @ [0x23]) heading_marker"
    and ws: "list_all is_space ws"
  shows "extractSections (a @ heading_marker @ ws) = [[]]"
proof -
  have d: "dropWhile is_space ws = []"
    using ws by (simp add: list_all_iff)
  have n: "extractSections [] = []"
    by (rule extractSections_none) (simp add: str_includes_def heading_marker_def)
  show ?thesis
    using extractSections_unfold [OF first, of ws]
    by (simp add: d n trim_def)
qed

text \<open>The bold spans, read off the text: nothing where there is no \<^verbatim>\<open>**\<close>; after the
  first \<^verbatim>\<open>**\<close>, the text up to the next \<^verbatim>\<open>**\<close> where no line terminator comes before
  it, and then the bold spans of what follows; where the line has no other \<^verbatim>\<open>**\<close>, the
  bold spans of the text from the second asterisk on.\<close>

lemma bold_marker_chars: "bold_marker \<noteq> []" "butlast bold_marker = [0x2A]"
  "bold_marker = [0x2A, 0x2A]" "length bold_marker = 2"
  by (simp_all add: bold_marker_def)

lemma bold_matches_none: "\<not> str_includes s bold_marker \<Longrightarrow> bold_matches s = []"
proof (induction s)
  case Nil
  show ?case by simp
next
  case (Cons c s)
  have "\<not> startsWith (c # s) bold_marker"
  proof
    assume "startsWith (c # s) bold_marker"
    then have "c # s = bold_marker @ drop 2 (c # s)"
      by (metis append_take_drop_id startsWith_def bold_marker_chars(4))
    then have "str_includes (c # s) bold_marker"
      unfolding str_includes_iff by (metis append_Nil)
    with Cons.prems show False by simp
  qed
  moreover have "\<not> str_includes s bold_marker"
    using Cons.prems str_includes_Cons by blast
  ultimately show ?case
    using Cons.IH by simp
qed

lemma bold_matches_skip:
  "\<not> str_includes (a @ [0x2A]) bold_marker \<Longrightarrow>
   bold_matches (a @ bold_marker @ u) = bold_matches (bold_marker @ u)"
proof (induction a)
  case Nil
  show ?case by simp
next
  case (Cons c a)
  have "\<not> startsWith (c # a @ bold_marker @ u) bold_marker"
    using Cons.prems by (intro no_start_before_first) (simp_all add: bold_marker_chars)
  moreover have "\<not> str_includes (a @ [0x2A]) bold_marker"
    using Cons.prems str_includes_Cons [of "a @ [0x2A]" bold_marker c] by auto
  ultimately show ?case
    using Cons.IH by simp
qed

lemma bold_close_found:
  "list_all not_line_terminator inner \<Longrightarrow> \<not> str_includes (inner @ [0x2A]) bold_marker \<Longrightarrow>
   bold_close (inner @ bold_marker @ rest) = Some (inner, rest)"
proof (induction inner)
  case Nil
  show ?case by (simp add: bold_marker_def startsWith_def)
next
  case (Cons c inner)
  have "\<not> startsWith (c # inner @ bold_marker @ rest) bold_marker"
    using Cons.prems(2) by (intro no_start_before_first) (simp_all add: bold_marker_chars)
  moreover have "\<not> str_includes (inner @ [0x2A]) bold_marker"
    using Cons.prems(2) str_includes_Cons [of "inner @ [0x2A]" bold_marker c] by auto
  moreover have "\<not> is_line_terminator c" "list_all not_line_terminator inner"
    using Cons.prems(1) by (simp_all add: not_line_terminator_def list_all_iff)
  ultimately show ?case
    using Cons.IH by simp
qed

lemma bold_close_none:
  "\<not> str_includes (takeWhile not_line_terminator u) bold_marker \<Longrightarrow> bold_close u = None"
proof (induction u)
  case Nil
  show ?case by simp
next
  case (Cons c s)
  have star: "not_line_terminator 0x2A"
    by (simp add: not_line_terminator_def is_line_terminator_def)
  have no: "\<not> startsWith (c # s) bold_marker"
  proof
    assume "startsWith (c # s) bold_marker"
    then have "c # s = bold_marker @ drop 2 (c # s)"
      by (metis append_take_drop_id startsWith_def bold_marker_chars(4))
    then have "takeWhile not_line_terminator (c # s) =
               bold_marker @ takeWhile not_line_terminator (drop 2 (c # s))"
      using star by (metis (no_types, lifting) append_Cons append_Nil bold_marker_chars(3) takeWhile.simps(2))
    then have "str_includes (takeWhile not_line_terminator (c # s)) bold_marker"
      unfolding str_includes_iff by (metis append_Nil)
    with Cons.prems show False by simp
  qed
  show ?case
  proof (cases "is_line_terminator c")
    case True
    with no show ?thesis by simp
  next
    case False
    then have "takeWhile not_line_terminator (c # s) = c # takeWhile not_line_terminator s"
      by (simp add: not_line_terminator_def)
    with Cons.prems have "\<not> str_includes (takeWhile not_line_terminator s) bold_marker"
      using str_includes_Cons by fastforce
    from Cons.IH [OF this] no False show ?thesis by simp
  qed
qed

lemma bold_text_of:
  assumes "\<not> str_includes (inner @ [0x2A]) bold_marker"
  shows "replace_all bold_marker [] (bold_marker @ inner @ bold_marker) = inner"
proof -
  have a: "find_str bold_marker ([] @ bold_marker @ inner @ bold_marker) = Some ([], inner @ bold_marker)"
    by (rule find_str_first) (simp_all add: bold_marker_def str_includes_def startsWith_def)
  have b: "find_str bold_marker (inner @ bold_marker @ []) = Some (inner, [])"
    using assms by (intro find_str_first) (simp_all add: bold_marker_chars)
  have c: "replace_all bold_marker [] [] = []"
    by (simp add: bold_marker_def)
  have "replace_all bold_marker [] (inner @ bold_marker) = inner"
    using b c by (subst replace_all.simps) (simp add: bold_marker_chars(1) del: replace_all.simps)
  then show ?thesis
    using a by (subst replace_all.simps) (simp add: bold_marker_chars(1) del: replace_all.simps)
qed

lemma emphasized_texts_none:
  "\<not> str_includes s bold_marker \<Longrightarrow> emphasized_texts s = []"
  by (simp add: emphasized_texts_def bold_matches_none regex_matches_all)

lemma bold_matches_open:
  "bold_matches (bold_marker @ u) =
     (case bold_close u of
        None \<Rightarrow> bold_matches (0x2A # u)
      | Some (inner, r) \<Rightarrow> (bold_marker @ inner @ bold_marker) # bold_matches r)"
  by (simp add: bold_marker_def startsWith_def)

lemma emphasized_texts_span:
  assumes first: "\<not> str_includes (a @ [0x2A]) bold_marker"
    and inner: "list_all not_line_terminator inner" "\<not> str_includes (inner @ [0x2A]) bold_marker"
  shows "emphasized_texts (a @ bold_marker @ inner @ bold_marker @ rest) =
         trim inner # emphasized_texts rest"
proof -
  have "bold_matches (a @ bold_marker @ inner @ bold_marker @ rest) =
        bold_matches (bold_marker @ inner @ bold_marker @ rest)"
    using first by (rule bold_matches_skip)
  also have "\<dots> = (bold_marker @ inner @ bold_marker) # bold_matches rest"
    by (simp only: bold_matches_open bold_close_found [OF inner] option.case prod.case)
  finally show ?thesis
    by (simp add: emphasized_texts_def regex_matches_all bold_text_of [OF inner(2)]
        del: replace_all.simps)
qed

lemma emphasized_texts_unclosed:
  assumes first: "\<not> str_includes (a @ [0x2A]) bold_marker"
    and u: "\<not> str_includes (takeWhile not_line_terminator u) bold_marker"
  shows "emphasized_texts (a @ bold_marker @ u) = emphasized_texts (0x2A # u)"
proof -
  have "bold_matches (a @ bold_marker @ u) = bold_matches (bold_marker @ u)"
    using first by (rule bold_matches_skip)
  also have "\<dots> = bold_matches (0x2A # u)"
    by (simp only: bold_matches_open bold_close_none [OF u] option.case)
  finally show ?thesis
    by (simp add: emphasized_texts_def)
qed

text \<open>
  C8, as claimed: the topics are listed in the order of first appearance in the document.
  In the body \<^verbatim>\<open>**a**\<close>, line break, \<^verbatim>\<open>## b\<close>, the bold span \<^verbatim>\<open>a\<close> stands at the start and
  the heading \<^verbatim>\<open>b\<close> after it, and the topics are \<^verbatim>\<open>b\<close>, then \<^verbatim>\<open>a\<close>.
\<close>

theorem extractTopics_not_document_order:
  "find_str (lit ''**a**'') bold_then_heading = Some ([], newline @ lit ''## b'') \<and>
   find_str (lit ''## b'') bold_then_heading = Some (lit ''**a**'' @ newline, []) \<and>
   extractSections bold_then_heading = [lit ''b''] \<and>
   emphasized_texts bold_then_heading = [lit ''a''] \<and>
   extractTopics bold_then_heading = [lit ''b'', lit ''a'']"
  by code_simp

text \<open>
  C8, amended. For every body text, the topics are the heading texts followed by the bold
  spans, each topic kept where it first occurs in that sequence: so they are distinct,
  trimmed, and the union of the two.

  The heading texts (\<open>extractSections\<close>) are read from left to right: a text with no
  \<^verbatim>\<open>##\<close> has none; the first \<^verbatim>\<open>##\<close> of the text, the white space \<open>ws\<close> after it (line breaks
  included) and the rest \<open>line\<close> of the line where the white space ends give the heading
  text \<open>line\<close>, trimmed, and then come the heading texts of the text \<open>rest\<close> after that line;
  where only white space follows the \<^verbatim>\<open>##\<close>, the heading text is empty and the last.

  The bold spans (\<open>emphasized_texts\<close>) are read from left to right: a text with no \<^verbatim>\<open>**\<close>
  has none; the first \<^verbatim>\<open>**\<close> of the text, when the next \<^verbatim>\<open>**\<close> after it comes before any
  line terminator, gives the text \<open>inner\<close> between the two, trimmed, and then come the bold
  spans of the text \<open>rest\<close> after the closing \<^verbatim>\<open>**\<close>; when the rest of its line has no
  \<^verbatim>\<open>**\<close>, it gives nothing and the bold spans are those of the text from its second
  asterisk on.
\<close>

theorem extractTopics_headings_first:
  "extractTopics content =
     array_from_set (extractSections content) @
     filter (\<lambda>t. t \<notin> set (extractSections content)) (array_from_set (emphasized_texts content)) \<and>
   extractTopics content = array_from_set (extractSections content @ emphasized_texts content) \<and>
   distinct (extractTopics content) \<and>
   set (extractTopics content) = set (extractSections content) \<union> set (emphasized_texts content) \<and>
   list_all (\<lambda>t. trim t = t) (extractTopics content) \<and>
   (\<not> str_includes s0 heading_marker \<longrightarrow> extractSections s0 = []) \<and>
   (\<not> str_includes (a1 @ [0x23]) heading_marker \<and> list_all is_space ws1 \<and>
    line \<noteq> [] \<and> \<not> is_space (hd line) \<and> list_all not_line_terminator line \<and>
    (rest1 = [] \<or> is_line_terminator (hd rest1)) \<longrightarrow>
      extractSections (a1 @ heading_marker @ ws1 @ line @ rest1) =
        trim line # extractSections rest1) \<and>
   (\<not> str_includes (a2 @ [0x23]) heading_marker \<and> list_all is_space ws2 \<longrightarrow>
      extractSections (a2 @ heading_marker @ ws2) = [[]]) \<and>
   (\<not> str_includes s3 bold_marker \<longrightarrow> emphasized_texts s3 = []) \<and>
   (\<not> str_includes (a4 @ [0x2A]) bold_marker \<and> list_all not_line_terminator inner \<and>
    \<not> str_includes (inner @ [0x2A]) bold_marker \<longrightarrow>
      emphasized_texts (a4 @ bold_marker @ inner @ bold_marker @ rest4) =
        trim inner # emphasized_texts rest4) \<and>
   (\<not> str_includes (a5 @ [0x2A]) bold_marker \<and>
    \<not> str_includes (takeWhile not_line_terminator u5) bold_marker \<longrightarrow>
      emphasized_texts (a5 @ bold_marker @ u5) = emphasized_texts (0x2A # u5))"
proof -
  have e: "extractTopics content = array_from_set (extractSections content @ emphasized_texts content)"
    by (simp add: extractTopics_fold array_from_set_def)
  have s: "set (extractTopics content) = set (extractSections content) \<union> set (emphasized_texts content)"
    by (simp add: e array_from_set_set)
  have "foldl set_add [] (extractSections content @ emphasized_texts content) =
        foldl set_add (array_from_set (extractSections content)) (emphasized_texts content)"
    by (simp add: array_from_set_def)
  also have "\<dots> = array_from_set (extractSections content) @
     filter (\<lambda>t. t \<notin> set (extractSections content)) (array_from_set (emphasized_texts content))"
    by (simp only: foldl_set_add [of "array_from_set (extractSections content)"]
        array_from_set_set array_from_set_eq [symmetric])
  finally have h: "extractTopics content =
     array_from_set (extractSections content) @
     filter (\<lambda>t. t \<notin> set (extractSections content)) (array_from_set (emphasized_texts content))"
    by (simp add: extractTopics_fold)
  have t: "list_all (\<lambda>t. trim t = t) (extractTopics content)"
    unfolding list_all_iff s
    by (auto simp: extractSections_def emphasized_texts_def trim_trim)
  have d: "distinct (extractTopics content)"
    by (simp add: e array_from_set_distinct)
  show ?thesis
    by (intro conjI impI h e d s t extractSections_none extractSections_line
        extractSections_blank emphasized_texts_none emphasized_texts_span
        emphasized_texts_unclosed) simp_all
qed

theorem extractTopics_headings_first_witness:
  "heading_then_bold =
     [] @ heading_marker @ lit '' '' @ lit ''b **c** '' @ (newline @ lit ''Some **b** and **d** text'') \<and>
   extractSections heading_then_bold = [lit ''b **c**''] \<and>
   emphasized_texts heading_then_bold = [lit ''c'', lit ''b'', lit ''d''] \<and>
   extractTopics heading_then_bold = [lit ''b **c**'', lit ''c'', lit ''b'', lit ''d''] \<and>
   distinct (extractTopics heading_then_bold) \<and>
   extractSections (lit ''no heading'') = [] \<and>
   extractSections (lit ''x'' @ heading_marker @ lit '' '' @ newline) = [[]] \<and>
   emphasized_texts (lit ''a * b'') = [] \<and>
   emphasized_texts (lit ''## b '' @ bold_marker @ lit ''c'' @ bold_marker @ lit '' d'') = [lit ''c''] \<and>
   bold_across_lines = [] @ bold_marker @ (lit ''a'' @ newline @ lit ''b**'') \<and>
   emphasized_texts bold_across_lines = []"
proof -
  let ?rest1 = "newline @ lit ''Some **b** and **d** text''"
  let ?u5 = "lit ''a'' @ newline @ lit ''b**''"
  have h0: "\<not> str_includes (lit ''no heading'') heading_marker" by code_simp
  have h1: "\<not> str_includes ([] @ [0x23]) heading_marker" "list_all is_space (lit '' '')"
    "lit ''b **c** '' \<noteq> []" "\<not> is_space (hd (lit ''b **c** ''))"
    "list_all not_line_terminator (lit ''b **c** '')" "is_line_terminator (hd ?rest1)"
    by code_simp+
  have h2: "\<not> str_includes (lit ''x'' @ [0x23]) heading_marker"
    "list_all is_space (lit '' '' @ newline)"
    by code_simp+
  have h3: "\<not> str_includes (lit ''a * b'') bold_marker" by code_simp
  have h4: "\<not> str_includes (lit ''## b '' @ [0x2A]) bold_marker"
    "list_all not_line_terminator (lit ''c'')" "\<not> str_includes (lit ''c'' @ [0x2A]) bold_marker"
    by code_simp+
  have h5: "\<not> str_includes ([] @ [0x2A]) bold_marker"
    "\<not> str_includes (takeWhile not_line_terminator ?u5) bold_marker"
    by code_simp+
  note T1 = extractTopics_headings_first
    [where content = heading_then_bold and ?s0.0 = "lit ''no heading''"
       and ?a1.0 = "[]" and ?ws1.0 = "lit '' ''" and line = "lit ''b **c** ''" and ?rest1.0 = ?rest1
       and ?a2.0 = "lit ''x''" and ?ws2.0 = "lit '' '' @ newline"
       and ?s3.0 = "lit ''a * b''"
       and ?a4.0 = "lit ''## b ''" and inner = "lit ''c''" and ?rest4.0 = "lit '' d''"
       and ?a5.0 = "[]" and ?u5.0 = ?u5]
  note T2 = T1 [THEN conjunct2]
  note T3 = T2 [THEN conjunct2]
  note T6 = T3 [THEN conjunct2, THEN conjunct2, THEN conjunct2]
  note T7 = T6 [THEN conjunct2]
  note T8 = T7 [THEN conjunct2]
  note T9 = T8 [THEN conjunct2]
  note T10 = T9 [THEN conjunct2]
  note T11 = T10 [THEN conjunct2]
  have t: "extractTopics heading_then_bold =
        array_from_set (extractSections heading_then_bold @ emphasized_texts heading_then_bold)"
    by (rule T2 [THEN conjunct1])
  have d: "distinct (extractTopics heading_then_bold)"
    by (rule T3 [THEN conjunct1])
  have c0: "extractSections (lit ''no heading'') = []"
    by (rule T6 [THEN conjunct1, THEN mp]) (rule h0)
  have c1: "extractSections ([] @ heading_marker @ lit '' '' @ lit ''b **c** '' @ ?rest1) =
             trim (lit ''b **c** '') # extractSections ?rest1"
    by (rule T7 [THEN conjunct1, THEN mp]) (intro conjI disjI2 h1)
  have c2: "extractSections (lit ''x'' @ heading_marker @ lit '' '' @ newline) = [[]]"
    by (rule T8 [THEN conjunct1, THEN mp]) (intro conjI h2)
  have c3: "emphasized_texts (lit ''a * b'') = []"
    by (rule T9 [THEN conjunct1, THEN mp]) (rule h3)
  have c4: "emphasized_texts (lit ''## b '' @ bold_marker @ lit ''c'' @ bold_marker @ lit '' d'') =
             trim (lit ''c'') # emphasized_texts (lit '' d'')"
    by (rule T10 [THEN conjunct1, THEN mp]) (intro conjI h4)
  have c5: "emphasized_texts ([] @ bold_marker @ ?u5) = emphasized_texts (0x2A # ?u5)"
    by (rule T11 [THEN mp]) (intro conjI h5)
  have e1: "heading_then_bold = [] @ heading_marker @ lit '' '' @ lit ''b **c** '' @ ?rest1"
    by code_simp
  have e1': "trim (lit ''b **c** '') # extractSections ?rest1 = [lit ''b **c**'']"
    by code_simp
  have e4: "trim (lit ''c'') # emphasized_texts (lit '' d'') = [lit ''c'']"
    by code_simp
  have e5: "bold_across_lines = [] @ bold_marker @ ?u5" "emphasized_texts (0x2A # ?u5) = []"
    by code_simp+
  have a: "extractSections heading_then_bold = [lit ''b **c**'']"
    using c1 by (simp only: e1 [symmetric] e1')
  have b: "emphasized_texts heading_then_bold = [lit ''c'', lit ''b'', lit ''d'']"
    by code_simp
  have c: "array_from_set ([lit ''b **c**''] @ [lit ''c'', lit ''b'', lit ''d'']) =
           [lit ''b **c**'', lit ''c'', lit ''b'', lit ''d'']"
    by code_simp
  have t': "extractTopics heading_then_bold = [lit ''b **c**'', lit ''c'', lit ''b'', lit ''d'']"
    using t by (simp only: a b c)
  have c4': "emphasized_texts (lit ''## b '' @ bold_marker @ lit ''c'' @ bold_marker @ lit '' d'') =
             [lit ''c'']"
    using c4 by (simp only: e4)
  have c5': "emphasized_texts bold_across_lines = []"
    using c5 by (simp only: e5(1) [symmetric] e5(2))
  show ?thesis
    by (intro conjI e1 a b t' d c0 c2 c3 c4' e5(1) c5')
qed

section \<open>Flattening the comment tree (C3)\<close>

text \<open>The parent links of the built tree are read as a relation on references: \<open>up\<close>
  leads from a comment to the comment its declared parent resolves to. Where a rank
  decreases along every link, the pre-order traversal of a comment returns each of its
  descendants exactly once.\<close>

lemma those_map_Some:
  "(\<And>x. x \<in> set xs \<Longrightarrow> F x \<noteq> None) \<Longrightarrow> those (map F xs) = Some (map (\<lambda>x. the (F x)) xs)"
  by (induction xs) (auto split: option.splits)

lemma count_list_concat:
  "count_list (concat xss) k = sum_list (map (\<lambda>xs. count_list xs k) xss)"
  by (induction xss) simp_all

lemma sum_list_indicator:
  "distinct xs \<Longrightarrow> (\<And>a b. a \<in> set xs \<Longrightarrow> b \<in> set xs \<Longrightarrow> Q a \<Longrightarrow> Q b \<Longrightarrow> a = b) \<Longrightarrow>
   sum_list (map (\<lambda>c. if Q c then 1 else 0) xs) = (if \<exists>c\<in>set xs. Q c then 1 else (0::nat))"
proof (induction xs)
  case Nil
  show ?case by simp
next
  case (Cons x xs)
  have ih: "sum_list (map (\<lambda>c. if Q c then 1 else 0) xs) = (if \<exists>c\<in>set xs. Q c then 1 else (0::nat))"
    using Cons.prems by (intro Cons.IH) auto
  show ?case
  proof (cases "Q x")
    case True
    have "\<not> (\<exists>c\<in>set xs. Q c)"
      using Cons.prems(1) Cons.prems(2) [of x] True by auto
    with True ih show ?thesis by simp
  next
    case False
    with ih show ?thesis by simp
  qed
qed

lemma count_le_1_distinct: "(\<And>k. count_list xs k \<le> 1) \<Longrightarrow> distinct xs"
proof (induction xs)
  case Nil
  show ?case by simp
next
  case (Cons x xs)
  have "count_list (x # xs) x \<le> 1" by (rule Cons.prems)
  then have "count_list xs x = 0" by simp
  then have nx: "x \<notin> set xs" by (simp add: count_list_0_iff)
  have "count_list xs k \<le> 1" for k
    using Cons.prems [of k] by (simp split: if_splits)
  then have "distinct xs" by (rule Cons.IH)
  with nx show ?case by simp
qed

lemma up_single_valued: "single_valued (up cs)"
  by (rule single_valuedI) (simp add: up_def)

lemma up_rank_le: "(x, y) \<in> (up cs)\<^sup>* \<Longrightarrow> ranked cs r \<Longrightarrow> r y \<le> r x"
proof (induction rule: rtrancl_induct)
  case base
  show ?case by simp
next
  case (step y z)
  then have "r z < r y" by (simp add: ranked_def)
  with step show ?case by simp
qed

lemma up_source_bound: "(k, i) \<in> (up cs)\<^sup>* \<Longrightarrow> i < length cs \<Longrightarrow> k < length cs"
  by (erule converse_rtranclE) (simp_all add: up_def)

lemma up_not_back:
  assumes "ranked cs r" and "(c, i) \<in> up cs"
  shows "(i, c) \<notin> (up cs)\<^sup>*"
proof
  assume "(i, c) \<in> (up cs)\<^sup>*"
  then have "r c \<le> r i" using assms(1) by (rule up_rank_le)
  moreover have "r i < r c" using assms by (simp add: ranked_def)
  ultimately show False by simp
qed

lemma up_child_unique:
  assumes ok: "ranked cs r"
    and c1: "(c1, i) \<in> up cs" and c2: "(c2, i) \<in> up cs"
    and k1: "(k, c1) \<in> (up cs)\<^sup>*" and k2: "(k, c2) \<in> (up cs)\<^sup>*"
  shows "c1 = c2"
proof (rule ccontr)
  assume ne: "c1 \<noteq> c2"
  have above: False if ab: "(a, b) \<in> (up cs)\<^sup>*" and "a \<noteq> b"
    and a: "(a, i) \<in> up cs" and b: "(b, i) \<in> up cs" for a b
  proof -
    from ab \<open>a \<noteq> b\<close> obtain z where az: "(a, z) \<in> up cs" and zb: "(z, b) \<in> (up cs)\<^sup>*"
      by (auto elim: converse_rtranclE)
    from az a have "z = i"
      using up_single_valued [of cs] by (auto dest: single_valuedD)
    with zb have "(i, b) \<in> (up cs)\<^sup>*" by simp
    with up_not_back [OF ok b] show False by simp
  qed
  from single_valued_confluent [OF up_single_valued k1 k2]
  have "(c1, c2) \<in> (up cs)\<^sup>* \<or> (c2, c1) \<in> (up cs)\<^sup>*" .
  then show False
    using above [of c1 c2] above [of c2 c1] ne c1 c2 by auto
qed

lemma desc_unfold:
  "(k, i) \<in> (up cs)\<^sup>* \<longleftrightarrow> k = i \<or> (\<exists>c. (c, i) \<in> up cs \<and> (k, c) \<in> (up cs)\<^sup>*)"
  by (auto elim: rtranclE intro: rtrancl_into_rtrancl)

lemma preorder_count:
  assumes ok: "ranked cs r"
    and bound: "\<And>i. i < length cs \<Longrightarrow> r i < B"
    and ch: "\<And>j. j < length cs \<Longrightarrow>
               children (h ! j) = filter (\<lambda>i. parent_index cs i = Some j) [0..<length cs]"
  shows "i < length cs \<Longrightarrow> B \<le> fuel + r i \<Longrightarrow>
         \<exists>xs. preorder fuel h i = Some xs \<and>
              (\<forall>k. count_list xs k = (if (k, i) \<in> (up cs)\<^sup>* then 1 else 0))"
proof (induction fuel arbitrary: i)
  case 0
  with bound [of i] show ?case by simp
next
  case (Suc fuel)
  let ?kids = "filter (\<lambda>c. parent_index cs c = Some i) [0..<length cs]"
  have kid: "c < length cs \<and> (c, i) \<in> up cs \<and> B \<le> fuel + r c" if "c \<in> set ?kids" for c
  proof -
    from that have c: "c < length cs" "(c, i) \<in> up cs" by (simp_all add: up_def)
    with ok have "r i < r c" by (simp add: ranked_def)
    with Suc.prems c show ?thesis by simp
  qed
  have sub: "\<exists>xs. preorder fuel h c = Some xs \<and>
                (\<forall>k. count_list xs k = (if (k, c) \<in> (up cs)\<^sup>* then 1 else 0))"
    if "c \<in> set ?kids" for c
    using kid [OF that] by (intro Suc.IH) simp_all
  then have some: "preorder fuel h c \<noteq> None" if "c \<in> set ?kids" for c
    using that by fastforce
  have cnt: "count_list (the (preorder fuel h c)) k = (if (k, c) \<in> (up cs)\<^sup>* then 1 else 0)"
    if "c \<in> set ?kids" for c k
    using sub [OF that] by fastforce
  let ?xs = "i # concat (map (\<lambda>c. the (preorder fuel h c)) ?kids)"
  have "those (map (preorder fuel h) ?kids) = Some (map (\<lambda>c. the (preorder fuel h c)) ?kids)"
    by (rule those_map_Some) (rule some)
  then have res: "preorder (Suc fuel) h i = Some ?xs"
    using Suc.prems(1) by (simp add: ch)
  have "count_list ?xs k = (if (k, i) \<in> (up cs)\<^sup>* then 1 else 0)" for k
  proof -
    have "sum_list (map (\<lambda>xs. count_list xs k) (map (\<lambda>c. the (preorder fuel h c)) ?kids)) =
          sum_list (map (\<lambda>c. if (k, c) \<in> (up cs)\<^sup>* then 1 else 0) ?kids)"
      unfolding map_map o_def
      by (rule arg_cong [where f = sum_list], rule map_cong [OF refl]) (rule cnt)
    also have "\<dots> = (if \<exists>c\<in>set ?kids. (k, c) \<in> (up cs)\<^sup>* then 1 else 0)"
    proof (rule sum_list_indicator)
      show "distinct ?kids" by simp
    next
      fix a b assume "a \<in> set ?kids" "b \<in> set ?kids"
        and "(k, a) \<in> (up cs)\<^sup>*" "(k, b) \<in> (up cs)\<^sup>*"
      then show "a = b"
        using kid [of a] kid [of b] up_child_unique [OF ok, of a i b k] by simp
    qed
    finally have s: "count_list (concat (map (\<lambda>c. the (preorder fuel h c)) ?kids)) k =
        (if \<exists>c\<in>set ?kids. (k, c) \<in> (up cs)\<^sup>* then 1 else 0)"
      by (simp only: count_list_concat)
    have kids_iff: "(\<exists>c\<in>set ?kids. (k, c) \<in> (up cs)\<^sup>*) \<longleftrightarrow>
                    (\<exists>c. (c, i) \<in> up cs \<and> (k, c) \<in> (up cs)\<^sup>*)"
      by (auto simp: up_def)
    show ?thesis
    proof (cases "k = i")
      case True
      have "\<not> (\<exists>c. (c, i) \<in> up cs \<and> (i, c) \<in> (up cs)\<^sup>*)"
        using up_not_back [OF ok] by blast
      with True s kids_iff show ?thesis by simp
    next
      case False
      with s kids_iff desc_unfold [of k i cs] show ?thesis by simp
    qed
  qed
  with res show ?case by blast
qed

lemma last_index_map_Some:
  assumes "last_index_map cs (length cs) p = Some j"
  shows "j < length cs \<and> comment_id (cs ! j) = p"
proof -
  from assms have "(p, j) \<in> set (zip (map comment_id cs) [0..<length cs])"
    by (auto simp: last_index_map_def dest!: map_of_SomeD)
  then show ?thesis
    by (auto simp: in_set_zip)
qed

lemma root_exists:
  assumes ok: "ranked cs r"
  shows "k < length cs \<Longrightarrow>
         \<exists>q. q < length cs \<and> parent_index cs q = None \<and> (k, q) \<in> (up cs)\<^sup>*"
proof (induction "r k" arbitrary: k rule: less_induct)
  case less
  show ?case
  proof (cases "parent_index cs k")
    case None
    with less.prems show ?thesis by blast
  next
    case (Some j)
    with less.prems have e: "(k, j) \<in> up cs" by (simp add: up_def)
    with ok have "j < length cs" "r j < r k" by (simp_all add: ranked_def)
    then obtain q where "q < length cs" "parent_index cs q = None" "(j, q) \<in> (up cs)\<^sup>*"
      using less.hyps by blast
    with e show ?thesis
      by (blast intro: converse_rtrancl_into_rtrancl)
  qed
qed

lemma root_is_top: "(q, x) \<in> (up cs)\<^sup>* \<Longrightarrow> parent_index cs q = None \<Longrightarrow> x = q"
  by (erule converse_rtranclE) (simp_all add: up_def)

lemma root_unique:
  assumes "parent_index cs a = None" and "parent_index cs b = None"
    and "(k, a) \<in> (up cs)\<^sup>*" and "(k, b) \<in> (up cs)\<^sup>*"
  shows "a = b"
proof -
  from single_valued_confluent [OF up_single_valued assms(3) assms(4)]
  have "(a, b) \<in> (up cs)\<^sup>* \<or> (b, a) \<in> (up cs)\<^sup>*" .
  then show ?thesis
    using assms(1,2) by (auto dest: root_is_top)
qed

lemma forest_count:
  assumes ok: "ranked cs r"
    and bound: "\<And>i. i < length cs \<Longrightarrow> r i < B"
    and ch: "\<And>j. j < length cs \<Longrightarrow>
               children (h ! j) = filter (\<lambda>i. parent_index cs i = Some j) [0..<length cs]"
    and fuel: "B \<le> fuel"
  shows "\<exists>xss. those (map (preorder fuel h)
                  (filter (\<lambda>i. parent_index cs i = None) [0..<length cs])) = Some xss \<and>
           (\<forall>k. count_list (concat xss) k = (if k < length cs then 1 else 0))"
proof -
  let ?roots = "filter (\<lambda>i. parent_index cs i = None) [0..<length cs]"
  have sub: "\<exists>xs. preorder fuel h q = Some xs \<and>
                (\<forall>k. count_list xs k = (if (k, q) \<in> (up cs)\<^sup>* then 1 else 0))"
    if "q \<in> set ?roots" for q
    using that fuel by (intro preorder_count [OF ok bound ch]) simp_all
  then have some: "preorder fuel h q \<noteq> None" if "q \<in> set ?roots" for q
    using that by fastforce
  have cnt: "count_list (the (preorder fuel h q)) k = (if (k, q) \<in> (up cs)\<^sup>* then 1 else 0)"
    if "q \<in> set ?roots" for q k
    using sub [OF that] by fastforce
  let ?xss = "map (\<lambda>q. the (preorder fuel h q)) ?roots"
  have res: "those (map (preorder fuel h) ?roots) = Some ?xss"
    by (rule those_map_Some) (rule some)
  have "count_list (concat ?xss) k = (if k < length cs then 1 else 0)" for k
  proof -
    have "sum_list (map (\<lambda>xs. count_list xs k) ?xss) =
          sum_list (map (\<lambda>q. if (k, q) \<in> (up cs)\<^sup>* then 1 else 0) ?roots)"
      unfolding map_map o_def
      by (rule arg_cong [where f = sum_list], rule map_cong [OF refl]) (rule cnt)
    also have "\<dots> = (if \<exists>q\<in>set ?roots. (k, q) \<in> (up cs)\<^sup>* then 1 else 0)"
    proof (rule sum_list_indicator)
      show "distinct ?roots" by simp
    next
      fix a b assume "a \<in> set ?roots" "b \<in> set ?roots"
        and "(k, a) \<in> (up cs)\<^sup>*" "(k, b) \<in> (up cs)\<^sup>*"
      then show "a = b"
        using root_unique [of cs a b k] by simp
    qed
    finally have s: "count_list (concat ?xss) k =
        (if \<exists>q\<in>set ?roots. (k, q) \<in> (up cs)\<^sup>* then 1 else 0)"
      by (simp only: count_list_concat)
    have "(\<exists>q\<in>set ?roots. (k, q) \<in> (up cs)\<^sup>*) \<longleftrightarrow> k < length cs"
    proof
      assume "\<exists>q\<in>set ?roots. (k, q) \<in> (up cs)\<^sup>*"
      then show "k < length cs"
        by (auto dest: up_source_bound)
    next
      assume "k < length cs"
      from root_exists [OF ok this] show "\<exists>q\<in>set ?roots. (k, q) \<in> (up cs)\<^sup>*"
        by auto
    qed
    with s show ?thesis by simp
  qed
  with res show ?thesis by blast
qed

lemma level_bound: "i < length cs \<Longrightarrow> level rank cs i < length cs"
proof -
  assume i: "i < length cs"
  have "{j. j < length cs \<and> rank (comment_id (cs ! j)) < rank (comment_id (cs ! i))}
        \<subseteq> {..<length cs} - {i}"
    by auto
  then have "level rank cs i \<le> card ({..<length cs} - {i})"
    unfolding level_def by (intro card_mono) simp_all
  also have "\<dots> < length cs"
    using i by simp
  finally show ?thesis .
qed

lemma level_mono:
  assumes "j < length cs" and "rank (comment_id (cs ! j)) < rank (comment_id (cs ! i))"
  shows "level rank cs j < level rank cs i"
  unfolding level_def
proof (rule psubset_card_mono)
  show "finite {k. k < length cs \<and> rank (comment_id (cs ! k)) < rank (comment_id (cs ! i))}"
    by simp
  show "{k. k < length cs \<and> rank (comment_id (cs ! k)) < rank (comment_id (cs ! j))}
        \<subset> {k. k < length cs \<and> rank (comment_id (cs ! k)) < rank (comment_id (cs ! i))}"
    using assms by auto
qed

lemma count_one_below:
  assumes "\<And>k. count_list xs k = (if k < n then 1 else (0::nat))"
  shows "distinct xs \<and> set xs = {..<n}"
proof
  show "distinct xs"
    by (rule count_le_1_distinct) (simp add: assms)
  show "set xs = {..<n}"
  proof (rule set_eqI)
    fix k
    show "k \<in> set xs \<longleftrightarrow> k \<in> {..<n}"
      using count_list_0_iff [of xs k] assms [of k] by (cases "k < n") auto
  qed
qed

text \<open>
  C3, amended. For every input list with no duplicate identities in which every comment
  that declares a non-zero parent declares the identity of a comment of the input, and no
  comment is its own ancestor (some rank of the identities decreases from every comment to
  its declared parent), the pre-order traversal of the builder's output returns (with a
  depth allowance of at least the number of comments), and the identities it collects are
  exactly those of the input, none duplicated and none dropped.
\<close>

theorem flatten_buildCommentTree:
  fixes rank :: "int \<Rightarrow> nat"
  assumes ids: "distinct (map comment_id comments)"
    and parents: "\<forall>c\<in>set comments. has_parent c \<longrightarrow>
           parent_of c \<in> comment_id ` set comments \<and> rank (parent_of c) < rank (comment_id c)"
    and fuel: "length comments \<le> fuel"
  shows "\<exists>refs. flatten fuel (buildCommentTree comments) = Some refs \<and>
           distinct (identities (buildCommentTree comments) refs) \<and>
           set (identities (buildCommentTree comments) refs) = set (map comment_id comments)"
proof -
  let ?n = "length comments"
  let ?t = "buildCommentTree comments"
  have edge: "j < ?n \<and> rank (comment_id (comments ! j)) < rank (comment_id (comments ! i))"
    if "(i, j) \<in> up comments" for i j
  proof -
    from that have i: "i < ?n" and hp: "has_parent (comments ! i)"
      and m: "last_index_map comments ?n (parent_of (comments ! i)) = Some j"
      by (simp_all add: up_def parent_index_def split: if_splits)
    from last_index_map_Some [OF m]
    have j: "j < ?n" "comment_id (comments ! j) = parent_of (comments ! i)" by simp_all
    from i have "comments ! i \<in> set comments" by simp
    with parents hp have "rank (parent_of (comments ! i)) < rank (comment_id (comments ! i))"
      by blast
    with j show ?thesis by simp
  qed
  have ok: "ranked comments (level rank comments)"
    unfolding ranked_def using edge by (auto intro: level_mono)
  have roots: "filter (\<lambda>i. \<not> has_parent (comments ! i)) [0..<?n] =
               filter (\<lambda>i. parent_index comments i = None) [0..<?n]"
  proof (rule filter_cong [OF refl])
    fix i assume "i \<in> set [0..<?n]"
    then have i: "comments ! i \<in> set comments" by simp
    show "(\<not> has_parent (comments ! i)) = (parent_index comments i = None)"
    proof (cases "has_parent (comments ! i)")
      case False
      then show ?thesis by (simp add: parent_index_def)
    next
      case True
      with parents i have "parent_of (comments ! i) \<in> comment_id ` set comments" by blast
      then obtain j where "j < ?n" "comment_id (comments ! j) = parent_of (comments ! i)"
        by (auto simp: in_set_conv_nth)
      with last_index_map_distinct [OF ids, of j]
      have "last_index_map comments ?n (parent_of (comments ! i)) = Some j" by simp
      with True show ?thesis by (simp add: parent_index_def)
    qed
  qed
  have ch: "children (heap ?t ! j) = filter (\<lambda>i. parent_index comments i = Some j) [0..<?n]"
    if "j < ?n" for j
    using that by (auto simp: heap_children replies_def parent_index_def intro!: filter_cong)
  from forest_count [OF ok level_bound ch fuel]
  obtain xss where xss: "those (map (preorder fuel (heap ?t))
        (filter (\<lambda>i. parent_index comments i = None) [0..<?n])) = Some xss"
    and cnt: "\<And>k. count_list (concat xss) k = (if k < ?n then 1 else 0)"
    by blast
  have fl: "flatten fuel ?t = Some (concat xss)"
    using xss by (simp add: flatten_def buildCommentTree_closed [of comments] roots)
  from count_one_below [OF cnt] have d: "distinct (concat xss)" and s: "set (concat xss) = {..<?n}"
    by simp_all
  have idm: "identities ?t (concat xss) = map (\<lambda>i. comment_id (comments ! i)) (concat xss)"
    unfolding identities_def
  proof (rule map_cong [OF refl])
    fix i assume "i \<in> set (concat xss)"
    with s have "i < ?n" by blast
    then show "comment_id (heap ?t ! i) = comment_id (comments ! i)"
      by (simp add: buildCommentTree_closed)
  qed
  have inj: "inj_on (\<lambda>i. comment_id (comments ! i)) {..<?n}"
  proof (rule inj_onI)
    fix a b assume "a \<in> {..<?n}" "b \<in> {..<?n}"
      and "comment_id (comments ! a) = comment_id (comments ! b)"
    then show "a = b"
      using ids nth_eq_iff_index_eq [of "map comment_id comments" a b] by simp
  qed
  have "distinct (identities ?t (concat xss))"
    unfolding idm using d inj s by (simp add: distinct_map)
  moreover have "set (identities ?t (concat xss)) = set (map comment_id comments)"
  proof -
    have "map comment_id comments = map comment_id (map (\<lambda>i. comments ! i) [0..<?n])"
      by (simp only: map_nth)
    then have "set (map comment_id comments) = (\<lambda>i. comment_id (comments ! i)) ` {..<?n}"
      by (simp add: image_image lessThan_atLeast0)
    moreover have "set (identities ?t (concat xss)) = (\<lambda>i. comment_id (comments ! i)) ` {..<?n}"
      by (simp only: idm set_map s)
    ultimately show ?thesis by simp
  qed
  ultimately show ?thesis using fl by blast
qed

theorem flatten_buildCommentTree_witness:
  "distinct (map comment_id thread) \<and>
   length thread \<le> 4 \<and>
   flatten 4 (buildCommentTree thread) = Some [1, 2, 0, 3] \<and>
   identities (buildCommentTree thread) [1, 2, 0, 3] = [1, 2, 4, 3] \<and>
   distinct (identities (buildCommentTree thread) [1, 2, 0, 3]) \<and>
   set (identities (buildCommentTree thread) [1, 2, 0, 3]) = set (map comment_id thread)"
proof -
  have a: "distinct (map comment_id thread)"
    by (simp add: thread_def comment_def)
  have b: "\<forall>c\<in>set thread. has_parent c \<longrightarrow>
      parent_of c \<in> comment_id ` set thread \<and> rank_by_id (parent_of c) < rank_by_id (comment_id c)"
    by (simp add: thread_def comment_def has_parent_def parent_of_def rank_by_id_def)
  have c: "length thread \<le> 4"
    by (simp add: thread_def)
  have d: "flatten 4 (buildCommentTree thread) = Some [1, 2, 0, 3]"
    by code_simp
  have e: "identities (buildCommentTree thread) [1, 2, 0, 3] = [1, 2, 4, 3]"
    by code_simp
  from flatten_buildCommentTree [OF a b c] d
  have "distinct (identities (buildCommentTree thread) [1, 2, 0, 3]) \<and>
        set (identities (buildCommentTree thread) [1, 2, 0, 3]) = set (map comment_id thread)"
    by simp
  with a c d e show ?thesis by simp
qed

text \<open>
  C3, as claimed: for every input with no duplicate identities, the flattened output has
  exactly the identities of the input. On the comments 1 (no parent), 2 (parent 1) and 3
  (parent 99) the traversal returns the identities 1 and 2: comment 3 is dropped.
\<close>

theorem flatten_buildCommentTree_drops_orphan:
  "distinct (map comment_id scenario3) \<and>
   map comment_id scenario3 = [1, 2, 3] \<and>
   flatten 3 (buildCommentTree scenario3) = Some [0, 1] \<and>
   flatten 10 (buildCommentTree scenario3) = Some [0, 1] \<and>
   identities (buildCommentTree scenario3) [0, 1] = [1, 2] \<and>
   set (identities (buildCommentTree scenario3) [0, 1]) \<noteq> set (map comment_id scenario3)"
proof -
  have a: "map comment_id scenario3 = [1, 2, 3]"
    by (simp add: scenario3_def comment_def)
  have b: "flatten 3 (buildCommentTree scenario3) = Some [0, 1]"
    by code_simp
  have c: "flatten 10 (buildCommentTree scenario3) = Some [0, 1]"
    by code_simp
  have d: "identities (buildCommentTree scenario3) [0, 1] = [1, 2]"
    by code_simp
  have e: "set (identities (buildCommentTree scenario3) [0, 1]) \<noteq> set (map comment_id scenario3)"
  proof
    assume "set (identities (buildCommentTree scenario3) [0, 1]) = set (map comment_id scenario3)"
    then have "(3::int) \<in> set [1, 2]"
      unfolding a d by simp
    then show False by simp
  qed
  have f: "distinct (map comment_id scenario3)"
    unfolding a by simp
  show ?thesis
    by (intro conjI a b c d e f)
qed

section \<open>Prerequisites (C7)\<close>

lemma find_ci_Some:
  "find_ci pat s = Some r \<Longrightarrow> \<exists>b. map ascii_lower s = b @ pat @ map ascii_lower r"
proof (induction s)
  case Nil
  then show ?case by (simp split: if_splits)
next
  case (Cons c s)
  show ?case
  proof (cases "map ascii_lower (take (length pat) (c # s)) = pat")
    case True
    with Cons.prems have r: "r = drop (length pat) (c # s)" by simp
    have "map ascii_lower (c # s) =
          map ascii_lower (take (length pat) (c # s)) @ map ascii_lower (drop (length pat) (c # s))"
      by (simp only: map_append [symmetric] append_take_drop_id)
    with True r show ?thesis by (metis append_Nil)
  next
    case False
    with Cons.prems have "find_ci pat s = Some r" by simp
    from Cons.IH [OF this] obtain b where "map ascii_lower s = b @ pat @ map ascii_lower r" ..
    then have "map ascii_lower (c # s) = (ascii_lower c # b) @ pat @ map ascii_lower r" by simp
    then show ?thesis ..
  qed
qed

lemma find_ci_None:
  "\<not> str_includes (map ascii_lower s) pat \<Longrightarrow> find_ci pat s = None"
  by (cases "find_ci pat s") (auto simp: str_includes_iff dest!: find_ci_Some)

lemma find_ci_first:
  assumes w: "map ascii_lower w = pat" and ne: "pat \<noteq> []"
  shows "\<not> str_includes (map ascii_lower (pre @ butlast w)) pat \<Longrightarrow>
         find_ci pat (pre @ w @ rest) = Some rest"
proof (induction pre)
  case Nil
  from w have len: "length w = length pat" by (metis length_map)
  with ne obtain c w' where cw: "w = c # w'" by (cases w) auto
  have "map ascii_lower (take (length pat) (w @ rest)) = pat"
    using w len by simp
  moreover have "drop (length pat) (w @ rest) = rest"
    using len by simp
  ultimately show ?case
    using cw by (metis append_Cons append_Nil find_ci.simps(2))
next
  case (Cons c pre)
  from w have len: "length w = length pat" by (metis length_map)
  with ne have wne: "w \<noteq> []" by auto
  have no: "map ascii_lower (take (length pat) (c # pre @ w @ rest)) \<noteq> pat"
  proof
    assume eq: "map ascii_lower (take (length pat) (c # pre @ w @ rest)) = pat"
    have "length pat \<le> length (c # pre @ butlast w)"
      using len wne by simp
    moreover have "c # pre @ w @ rest = (c # pre @ butlast w) @ [last w] @ rest"
      using wne by simp
    ultimately have "take (length pat) (c # pre @ w @ rest) = take (length pat) (c # pre @ butlast w)"
      by (simp only: take_append) simp
    with eq have "map ascii_lower (c # pre @ butlast w) =
        pat @ map ascii_lower (drop (length pat) (c # pre @ butlast w))"
      by (metis append_take_drop_id map_append)
    then have "str_includes (map ascii_lower ((c # pre) @ butlast w)) pat"
      unfolding str_includes_iff by (metis append_Cons append_Nil)
    with Cons.prems show False by simp
  qed
  have "\<not> str_includes (map ascii_lower (pre @ butlast w)) pat"
    using Cons.prems str_includes_Cons [of "map ascii_lower (pre @ butlast w)" pat "ascii_lower c"]
    by auto
  from Cons.IH [OF this] no show ?case by simp
qed

text \<open>The items of a span, read line by line: a line without a marker gives nothing, and
  a bullet line with some text after its marker gives that text, trimmed.\<close>

lemma space_not_marker: "is_space c \<Longrightarrow> not_marker c"
  by (auto simp: is_space_def not_marker_def is_marker_def)

lemma line_terminator_not_marker: "is_line_terminator c \<Longrightarrow> not_marker c"
  by (auto simp: is_line_terminator_def not_marker_def is_marker_def)

lemma trim_dropWhile: "trim (dropWhile is_space s) = trim s"
  by (simp add: trim_def)

lemma trim_nonempty: "trim s \<noteq> [] \<Longrightarrow> dropWhile is_space s \<noteq> []"
proof
  assume t: "trim s \<noteq> []" and e: "dropWhile is_space s = []"
  have "trim s = []"
    by (simp only: trim_def e rev.simps dropWhile.simps)
  with t show False by simp
qed

lemma item_texts_unfold: "item_texts s = items_from (dropWhile not_marker s)"
proof (cases "dropWhile not_marker s")
  case Nil
  show ?thesis
    by (subst item_texts_def, subst bullet_matches.simps)
       (simp only: Nil items_from_def list.case list.map)
next
  case (Cons m r)
  let ?line = "takeWhile not_line_terminator (dropWhile is_space r)"
  have "\<not> not_marker m"
    using hd_dropWhile [of not_marker s] Cons by simp
  then have "strip_marker (m # takeWhile is_space r @ ?line) = dropWhile is_space (takeWhile is_space r @ ?line)"
    by (simp add: strip_marker_def)
  also have "\<dots> = dropWhile is_space ?line"
    by (rule dropWhile_append2) (auto dest: set_takeWhileD)
  finally have "trim (strip_marker (m # takeWhile is_space r @ ?line)) = trim ?line"
    by (simp only: trim_dropWhile)
  then show ?thesis
    by (subst item_texts_def, subst bullet_matches.simps)
       (simp add: Cons items_from_def item_texts_def)
qed

lemma item_texts_skip:
  assumes "list_all not_marker a"
  shows "item_texts (a @ s) = item_texts s"
proof -
  have "dropWhile not_marker (a @ s) = dropWhile not_marker s"
    using assms by (simp add: list_all_iff)
  then show ?thesis
    by (simp only: item_texts_unfold [of "a @ s"] item_texts_unfold [of s])
qed

lemma item_texts_bullet:
  assumes b: "is_bullet_line l"
    and nolt: "list_all not_line_terminator l"
    and nonblank: "bullet_text l \<noteq> []"
    and rest: "rest = [] \<or> is_line_terminator (hd rest)"
  shows "item_texts (l @ rest) = bullet_text l # item_texts rest"
proof -
  from b obtain m r where d: "dropWhile is_space l = m # r" and m: "is_marker m"
    by (auto simp: is_bullet_line_def split: list.splits)
  have l: "l = takeWhile is_space l @ m # r"
    using d by (metis takeWhile_dropWhile_id)
  have "dropWhile not_marker (l @ rest) = dropWhile not_marker (takeWhile is_space l @ m # r @ rest)"
    using l by (metis append.assoc append_Cons)
  also have "\<dots> = dropWhile not_marker (m # r @ rest)"
    by (rule dropWhile_append2) (auto dest: set_takeWhileD intro: space_not_marker)
  also have "\<dots> = m # r @ rest"
    using m by (simp add: not_marker_def)
  finally have dm: "dropWhile not_marker (l @ rest) = m # r @ rest" .
  have bt: "bullet_text l = trim r"
    by (simp add: bullet_text_def d)
  with nonblank have "dropWhile is_space r \<noteq> []"
    by (auto dest: trim_nonempty)
  then obtain x where x: "x \<in> set r" "\<not> is_space x"
    by auto
  let ?D = "dropWhile is_space r"
  have ds: "dropWhile is_space (r @ rest) = ?D @ rest"
    using x by (rule dropWhile_append1)
  have "set r \<subseteq> set l"
    using l by (metis set_append set_subset_Cons sup.coboundedI2)
  with nolt have "\<forall>c\<in>set r. not_line_terminator c"
    by (auto simp: list_all_iff)
  then have D: "\<forall>c\<in>set ?D. not_line_terminator c"
    by (auto dest: set_dropWhileD)
  have r0: "takeWhile not_line_terminator rest = [] \<and> dropWhile not_line_terminator rest = rest"
    using rest by (cases rest) (auto simp: not_line_terminator_def)
  have tk: "takeWhile not_line_terminator (?D @ rest) = ?D"
    using D r0 by simp
  have dr: "dropWhile not_line_terminator (?D @ rest) = rest"
    using D r0 by simp
  show ?thesis
    by (simp add: item_texts_unfold [of "l @ rest"] dm items_from_def ds tk dr bt trim_dropWhile)
qed

lemma item_texts_line:
  assumes "proper_line l" and "list_all not_line_terminator l"
    and "rest = [] \<or> is_line_terminator (hd rest)"
  shows "item_texts (l @ rest) = (if is_bullet_line l then [bullet_text l] else []) @ item_texts rest"
proof (cases "is_bullet_line l")
  case True
  with assms item_texts_bullet [of l rest] show ?thesis
    by (simp add: proper_line_def)
next
  case False
  with assms item_texts_skip [of l rest] show ?thesis
    by (simp add: proper_line_def)
qed

lemma item_texts_Nil: "item_texts [] = []"
  by (simp add: item_texts_unfold items_from_def)

lemma lines_of_unfold:
  "lines_of s = takeWhile not_line_terminator s #
     (case dropWhile not_line_terminator s of [] \<Rightarrow> [] | t # r \<Rightarrow> lines_of r)"
  by (induction s) (auto simp: not_line_terminator_def split: list.splits)

lemma item_texts_lines:
  "list_all proper_line (lines_of s) \<Longrightarrow>
   item_texts s = map bullet_text (filter is_bullet_line (lines_of s))"
proof (induction s rule: length_induct)
  case (1 s)
  let ?l = "takeWhile not_line_terminator s"
  let ?rest = "dropWhile not_line_terminator s"
  have s: "s = ?l @ ?rest" by simp
  have nolt: "list_all not_line_terminator ?l"
    by (auto simp: list_all_iff dest: set_takeWhileD)
  have p: "proper_line ?l"
    using "1.prems" by (subst (asm) lines_of_unfold) simp
  have rest: "?rest = [] \<or> is_line_terminator (hd ?rest)"
    using hd_dropWhile [of not_line_terminator s] by (auto simp: not_line_terminator_def)
  have step: "item_texts s = (if is_bullet_line ?l then [bullet_text ?l] else []) @ item_texts ?rest"
    using item_texts_line [OF p nolt rest] by simp
  show ?case
  proof (cases ?rest)
    case Nil
    have ls: "lines_of s = [?l]"
      by (subst lines_of_unfold) (simp only: Nil list.case)
    have "item_texts ?rest = []"
      by (simp only: Nil item_texts_Nil)
    with step ls show ?thesis
      by simp
  next
    case (Cons t r)
    then have ls: "lines_of s = ?l # lines_of r"
      by (subst lines_of_unfold) simp
    have "is_line_terminator t"
      using rest Cons by simp
    then have "list_all not_marker [t]"
      by (simp add: line_terminator_not_marker)
    from item_texts_skip [OF this, of r] have sk: "item_texts ?rest = item_texts r"
      by (simp add: Cons)
    have "length r < length s"
      using Cons length_dropWhile_le [of not_line_terminator s] by simp
    moreover have "list_all proper_line (lines_of r)"
      using "1.prems" ls by simp
    ultimately have "item_texts r = map bullet_text (filter is_bullet_line (lines_of r))"
      using "1.IH" by blast
    with step sk ls show ?thesis by simp
  qed
qed

lemma extractPrerequisites_items:
  "prerequisiteSection content = Some captured \<Longrightarrow> extractPrerequisites content = item_texts captured"
  by (simp add: extractPrerequisites_def item_texts_def match_g_def)

text \<open>Where the word is first met and its optional \<^verbatim>\<open>s\<close> and colon are taken, the captured
  span runs up to the next \<^verbatim>\<open>##\<close>, or to the end of the document.\<close>

lemma ascii_lower_s: "ascii_lower c = 0x73 \<longleftrightarrow> c = 0x73 \<or> c = 0x53"
proof -
  have "c + 0x20 = 0x73 \<longleftrightarrow> c = 0x53"
  proof
    assume "c + 0x20 = 0x73"
    then have "c + 0x20 - 0x20 = 0x73 - 0x20" by simp
    then show "c = 0x53" by simp
  next
    assume "c = 0x53"
    then show "c + 0x20 = 0x73" by simp
  qed
  then show ?thesis
    by (auto simp: ascii_lower_def)
qed

lemma skip_optional_Cons: "skip_optional P (c # t) = (if P c then t else c # t)"
  by (simp add: skip_optional_def)

lemma skip_optional_keep: "r = [] \<or> \<not> P (hd r) \<Longrightarrow> skip_optional P r = r"
  by (cases r) (auto simp: skip_optional_def)

lemma prerequisiteSection_found:
  assumes w: "map ascii_lower w = lit ''prerequisite''"
    and first: "\<not> str_includes (map ascii_lower (pre @ butlast w)) (lit ''prerequisite'')"
    and sfx: "taken_suffix sfx captured"
    and tail: "tail = [] \<or> startsWith tail heading_marker"
    and span: "\<not> str_includes (captured @ take 1 tail) heading_marker"
  shows "prerequisiteSection (pre @ w @ sfx @ captured @ tail) = Some captured"
proof -
  let ?R = "captured @ tail"
  have ne: "lit ''prerequisite'' \<noteq> []"
    by (simp add: lit_def)
  have found: "find_ci (lit ''prerequisite'') (pre @ w @ sfx @ captured @ tail) = Some (sfx @ ?R)"
    using find_ci_first [OF w ne first, of "sfx @ captured @ tail"] by simp
  have tl: "tail = [] \<or> (\<exists>t. tail = heading_marker @ t)"
  proof (cases "tail = []")
    case False
    with tail have "tail = heading_marker @ drop 2 tail"
      by (metis append_take_drop_id startsWith_def heading_marker_def length_Cons list.size(3)
          numeral_2_eq_2)
    then show ?thesis by blast
  qed simp
  have cut: "(case find_str heading_marker ?R of None \<Rightarrow> ?R | Some (b, a) \<Rightarrow> b) = captured"
  proof (cases "tail = []")
    case True
    with span have "find_str heading_marker captured = None"
      by (simp add: find_str_none)
    with True show ?thesis by simp
  next
    case False
    with tl obtain t where t: "tail = heading_marker @ t" by blast
    then have "take 1 tail = [0x23]"
      by (simp add: heading_marker_def)
    with span have "find_str heading_marker (captured @ heading_marker @ t) = Some (captured, t)"
      by (intro find_str_first) (simp_all add: heading_marker_chars)
    then show ?thesis
      unfolding t by (simp only: option.case prod.case)
  qed
  have hdR: "?R = [] \<or> hd ?R = (if captured = [] then 0x23 else hd captured)"
    using tl by (cases captured) (auto simp: heading_marker_def)
  have sk: "skip_optional (\<lambda>c. c = 0x3A) (skip_optional (\<lambda>c. ascii_lower c = 0x73) (sfx @ ?R)) = ?R"
  proof -
    from sfx consider
        (none) "sfx = []" "?R = [] \<or> hd ?R \<notin> set [0x73, 0x53, 0x3A]"
      | (s) "sfx = [0x73] \<or> sfx = [0x53]" "?R = [] \<or> hd ?R \<noteq> 0x3A"
      | (colon) "sfx = [0x3A]"
      | (both) "sfx = [0x73, 0x3A] \<or> sfx = [0x53, 0x3A]"
      using hdR by (cases "captured = []") (auto simp: taken_suffix_def)
    then show ?thesis
    proof cases
      case none
      then have "skip_optional (\<lambda>c. ascii_lower c = 0x73) ?R = ?R"
        by (intro skip_optional_keep) (auto simp: ascii_lower_s)
      moreover have "skip_optional (\<lambda>c. c = 0x3A) ?R = ?R"
        using none by (intro skip_optional_keep) auto
      ultimately show ?thesis
        using none(1) by simp
    next
      case s
      have "skip_optional (\<lambda>c. c = 0x3A) ?R = ?R"
        using s by (intro skip_optional_keep) auto
      then show ?thesis
        using s(1) by (auto simp: skip_optional_Cons ascii_lower_s)
    next
      case colon
      then show ?thesis
        by (auto simp: skip_optional_Cons ascii_lower_s)
    next
      case both
      then show ?thesis
        by (auto simp: skip_optional_Cons ascii_lower_s)
    qed
  qed
  show ?thesis
    by (simp only: prerequisiteSection_def found option.case Let_def sk cut)
qed

text \<open>
  C7, as claimed: the result is the trimmed text of every bullet line of the span. In
  \<^verbatim>\<open>Prerequisites: command-line skills\<close> the span is one line that is not a bullet line,
  and the result is not empty: the hyphen inside \<^verbatim>\<open>command-line\<close> is matched as a marker.
  And where a bullet line has nothing after its marker, the white space of the pattern
  runs over the line break: the item is the text of the next line, which is no bullet line.
\<close>

theorem extractPrerequisites_marker_inside_line:
  "prerequisiteSection hyphenated = Some (lit '' command-line skills'') \<and>
   lines_of (lit '' command-line skills'') = [lit '' command-line skills''] \<and>
   \<not> is_bullet_line (lit '' command-line skills'') \<and>
   extractPrerequisites hyphenated = [lit ''line skills''] \<and>
   prerequisiteSection empty_bullet = Some (newline @ lit ''-'' @ newline @ lit ''foo'') \<and>
   lines_of (newline @ lit ''-'' @ newline @ lit ''foo'') = [[], lit ''-'', lit ''foo''] \<and>
   map bullet_text (filter is_bullet_line [[], lit ''-'', lit ''foo'']) = [[]] \<and>
   extractPrerequisites empty_bullet = [lit ''foo'']"
  by code_simp

text \<open>
  C7, amended. For every body text with no case-insensitive occurrence of "prerequisite"
  the result is the empty list. For a body text \<open>pre @ w @ sfx @ captured @ tail\<close> in which
  \<open>w\<close> is the first such occurrence of the word, \<open>sfx\<close> is the \<^verbatim>\<open>s\<close> (in either case) and
  the colon that follow it, each taken where it is there, and the span \<open>captured\<close> runs from
  there up to the first \<^verbatim>\<open>##\<close> after the word or, where there is none, to the end of the
  text: when every line of the span (the lines being the pieces between line terminators)
  is either a bullet line, whose first non-blank character is \<^verbatim>\<open>-\<close> or \<^verbatim>\<open>*\<close>, with some
  text after the marker, or a line with no \<^verbatim>\<open>-\<close> and no \<^verbatim>\<open>*\<close>, the result is the
  trimmed text after the marker of every bullet line of the span, in order.
\<close>

theorem extractPrerequisites_bullet_lines:
  "(\<not> str_includes (map ascii_lower content) (lit ''prerequisite'') \<longrightarrow>
      extractPrerequisites content = []) \<and>
   (map ascii_lower w = lit ''prerequisite'' \<and>
    \<not> str_includes (map ascii_lower (pre @ butlast w)) (lit ''prerequisite'') \<and>
    taken_suffix sfx captured \<and>
    (tail = [] \<or> startsWith tail heading_marker) \<and>
    \<not> str_includes (captured @ take 1 tail) heading_marker \<and>
    list_all proper_line (lines_of captured) \<longrightarrow>
      extractPrerequisites (pre @ w @ sfx @ captured @ tail) =
        map bullet_text (filter is_bullet_line (lines_of captured)))"
proof (intro conjI impI)
  assume "\<not> str_includes (map ascii_lower content) (lit ''prerequisite'')"
  then have "find_ci (lit ''prerequisite'') content = None"
    by (rule find_ci_None)
  then show "extractPrerequisites content = []"
    by (simp add: extractPrerequisites_def prerequisiteSection_def)
next
  assume h: "map ascii_lower w = lit ''prerequisite'' \<and>
    \<not> str_includes (map ascii_lower (pre @ butlast w)) (lit ''prerequisite'') \<and>
    taken_suffix sfx captured \<and>
    (tail = [] \<or> startsWith tail heading_marker) \<and>
    \<not> str_includes (captured @ take 1 tail) heading_marker \<and>
    list_all proper_line (lines_of captured)"
  then have "prerequisiteSection (pre @ w @ sfx @ captured @ tail) = Some captured"
    by (intro prerequisiteSection_found) simp_all
  then have "extractPrerequisites (pre @ w @ sfx @ captured @ tail) = item_texts captured"
    by (rule extractPrerequisites_items)
  also have "\<dots> = map bullet_text (filter is_bullet_line (lines_of captured))"
    using h by (intro item_texts_lines) simp
  finally show "extractPrerequisites (pre @ w @ sfx @ captured @ tail) =
        map bullet_text (filter is_bullet_line (lines_of captured))" .
qed

theorem extractPrerequisites_bullet_lines_witness:
  "\<not> str_includes (map ascii_lower (lit ''Hello world'')) (lit ''prerequisite'') \<and>
   extractPrerequisites (lit ''Hello world'') = [] \<and>
   map ascii_lower (lit ''Prerequisite'') = lit ''prerequisite'' \<and>
   \<not> str_includes (map ascii_lower (lit ''## '' @ butlast (lit ''Prerequisite'')))
       (lit ''prerequisite'') \<and>
   taken_suffix (lit ''s'') scenario1_span \<and>
   startsWith intro_tail heading_marker \<and>
   \<not> str_includes (scenario1_span @ take 1 intro_tail) heading_marker \<and>
   lines_of scenario1_span = [[], [], lit ''- C# basics'', [], lit ''- npm'', [], []] \<and>
   list_all proper_line (lines_of scenario1_span) \<and>
   scenario1 = lit ''## '' @ lit ''Prerequisite'' @ lit ''s'' @ scenario1_span @ intro_tail \<and>
   extractPrerequisites scenario1 = [lit ''C# basics'', lit ''npm'']"
proof -
  have a: "\<not> str_includes (map ascii_lower (lit ''Hello world'')) (lit ''prerequisite'')"
    by code_simp
  have b: "map ascii_lower (lit ''Prerequisite'') = lit ''prerequisite''" by code_simp
  have c: "\<not> str_includes (map ascii_lower (lit ''## '' @ butlast (lit ''Prerequisite'')))
       (lit ''prerequisite'')"
    by code_simp
  have d: "taken_suffix (lit ''s'') scenario1_span" by code_simp
  have e: "startsWith intro_tail heading_marker" by code_simp
  have f: "\<not> str_includes (scenario1_span @ take 1 intro_tail) heading_marker" by code_simp
  have g: "lines_of scenario1_span = [[], [], lit ''- C# basics'', [], lit ''- npm'', [], []]"
    by code_simp
  have h: "list_all proper_line (lines_of scenario1_span)" by code_simp
  have i: "scenario1 = lit ''## '' @ lit ''Prerequisite'' @ lit ''s'' @ scenario1_span @ intro_tail"
    by code_simp
  have j: "map bullet_text (filter is_bullet_line (lines_of scenario1_span)) =
           [lit ''C# basics'', lit ''npm'']"
    by code_simp
  note T = extractPrerequisites_bullet_lines
    [where content = "lit ''Hello world''" and w = "lit ''Prerequisite''" and pre = "lit ''## ''"
       and sfx = "lit ''s''" and captured = scenario1_span and tail = intro_tail]
  have k: "extractPrerequisites (lit ''Hello world'') = []"
    by (rule T [THEN conjunct1, THEN mp]) (rule a)
  have "extractPrerequisites
          (lit ''## '' @ lit ''Prerequisite'' @ lit ''s'' @ scenario1_span @ intro_tail) =
        map bullet_text (filter is_bullet_line (lines_of scenario1_span))"
    by (rule T [THEN conjunct2, THEN mp]) (intro conjI disjI2 b c d e f h)
  then have l: "extractPrerequisites scenario1 = [lit ''C# basics'', lit ''npm'']"
    by (simp only: i [symmetric] j)
  show ?thesis
    by (intro conjI a k b c d e f g h i l)
qed

end
